theory Spec2Isabelle
  imports Main "HOL-Library.Word" "HOL-Library.Multiset"
begin

section \<open>Data model of scanner.go\<close>

text \<open>
  The Go types of the file and of the packages it calls. Indices and the counter of
  processed entries are Go \<open>int64\<close>: they are modelled as \<open>int\<close> with the
  two's-complement wrap-around written out by \<open>wrap64\<close> at every addition and
  subtraction the code performs on them. The settings, and the \<open>retries\<close> and
  \<open>retryWait\<close> of \<open>fetch\<close>, are Go \<open>int\<close>: between two resets the budget is
  decremented and the wait doubled at most ten times, so that they stay within 0 to 10
  and 1 to 1024, and they are modelled as \<open>int\<close>.
\<close>

type_synonym bytes = "8 word list"

definition wrap64 :: "int \<Rightarrow> int" where
  "wrap64 x = (x + 2 ^ 63) mod 2 ^ 64 - 2 ^ 63"

text \<open>
  A Go \<open>error\<close> value. Errors handed back by a collaborator (log client, signature
  verifier) are opaque to this file: only their \<open>Error()\<close> text is read. \<open>errors.New\<close>
  allocates a fresh value, different from every collaborator's one.
\<close>

datatype error = Collaborator string | errors_New string

fun Error :: "error \<Rightarrow> string" where
  "Error (Collaborator m) = m"
| "Error (errors_New m) = m"

text \<open>\<open>ct.LogEntry\<close>: the two fields this file reads or writes.\<close>

record LogEntry =
  Index :: int
  LeafBytes :: bytes

text \<open>\<open>ct.SignedTreeHead\<close>; \<open>TreeSize\<close> is a \<open>uint64\<close>.\<close>

record SignedTreeHead =
  TreeSize :: "64 word"
  Timestamp :: "64 word"
  SHA256RootHash :: bytes
  TreeHeadSignature :: bytes

text \<open>
  \<open>ct.ConsistencyProof\<close> is a slice of \<open>ct.MerkleTreeNode\<close> (byte strings). A Go
  slice is \<open>nil\<close> (\<open>None\<close>) or holds a sequence, possibly empty (\<open>Some []\<close>).
\<close>

type_synonym ConsistencyProof = "bytes list option"

type_synonym PublicKey = bytes

record ScannerOptions =
  BatchSize :: int
  NumWorkers :: int
  Quiet :: bool

definition DefaultScannerOptions :: ScannerOptions where
  "DefaultScannerOptions = \<lparr>BatchSize = 1000, NumWorkers = 1, Quiet = False\<rparr>"

text \<open>
  \<open>client.LogClient\<close> is not part of this file: its three methods are parameters.
  The log server is stateful and may answer the same request differently each time, so
  \<open>GetEntries\<close> also takes the number of \<open>get-entries\<close> requests issued before this
  one. A call returns either an error or a value, as the Go methods do.
\<close>

record LogClient =
  GetEntries :: "nat \<Rightarrow> int \<Rightarrow> int \<Rightarrow> error + LogEntry list"
  GetSTH_rpc :: "error + SignedTreeHead"
  GetConsistencyProof :: "int \<Rightarrow> int \<Rightarrow> error + ConsistencyProof"

text \<open>
  The \<open>Scanner\<close> struct. Its \<open>certsProcessed\<close> field is shared with the worker
  goroutines and lives in the state of the concurrent system below.
\<close>

record Scanner =
  LogUri :: string
  publicKey :: "PublicKey option"
  logClient :: LogClient
  opts :: ScannerOptions

text \<open>
  \<open>NewScanner\<close>; \<open>client.New\<close>, which builds the log client for a URI, is a
  parameter. A \<open>nil\<close> public key is \<open>None\<close>.
\<close>

definition NewScanner :: "string \<Rightarrow> PublicKey option \<Rightarrow> ScannerOptions \<Rightarrow> (string \<Rightarrow> LogClient)
    \<Rightarrow> Scanner" where
  "NewScanner uri key options client_New =
     \<lparr>LogUri = uri, publicKey = key, logClient = client_New uri, opts = options\<rparr>"

text \<open>The fields \<open>start\<close> and \<open>end\<close> of \<open>fetchRange\<close>, both inclusive.\<close>

record fetchRange =
  r_start :: int
  r_end :: int

definition FETCH_RETRIES :: int where
  "FETCH_RETRIES = 10"

definition FETCH_RETRY_WAIT :: int where
  "FETCH_RETRY_WAIT = 1"

section \<open>Observable actions\<close>

text \<open>
  The lines handed to \<open>log.Print\<close>, with the numbers they format kept as numbers.
\<close>

datatype message =
    Starting_scan
  | Fetching_entries int int
  | Problem_fetching int int string
  | Problem_fetching_will_retry int int string
  | Completed_certs int

text \<open>
  What a goroutine does to the world outside its local variables, in program order.
  \<open>Print_Completed\<close> is the final log line of \<open>Scan\<close>, which reads the shared
  counter when it is printed; the elapsed time it also shows is not modelled.
\<close>

datatype event =
    Print message
  | Print_Completed
  | Reset_certsProcessed
  | Go_processerJob int
  | GetEntries_call int int
  | Sleep int
  | Send LogEntry
  | Close_jobs
  | WaitGroup_Wait
  | GetSTH_call
  | NewSignatureVerifier_call PublicKey
  | VerifySTHSignature_call SignedTreeHead
  | GetConsistencyProof_call int int
  | VerifyConsistencyProof_call ConsistencyProof SignedTreeHead SignedTreeHead

text \<open>
  The world the fetching goroutine acts on: how many \<open>get-entries\<close> requests the log
  has received, the \<open>*MerkleTreeBuilder\<close> argument (\<open>nil\<close> or an accumulator), and
  the actions performed so far.
\<close>

record 'tb world =
  requests :: nat
  builder :: "'tb option"
  events :: "event list"

definition emit :: "event \<Rightarrow> 'tb world \<Rightarrow> 'tb world" where
  "emit e w = w\<lparr>events := events w @ [e]\<rparr>"

definition Log :: "Scanner \<Rightarrow> message \<Rightarrow> 'tb world \<Rightarrow> 'tb world" where
  "Log s msg w = (if \<not> Quiet (opts s) then emit (Print msg) w else w)"

definition Warn :: "Scanner \<Rightarrow> message \<Rightarrow> 'tb world \<Rightarrow> 'tb world" where
  "Warn s msg w = emit (Print msg) w"

definition min_int64 :: "int \<Rightarrow> int \<Rightarrow> int" where
  "min_int64 a b = (if a < b then a else b)"

definition max_int64 :: "int \<Rightarrow> int \<Rightarrow> int" where
  "max_int64 a b = (if a > b then a else b)"

section \<open>fetch\<close>

text \<open>
  The inner loop of \<open>fetch\<close> over the entries of one response: feed the tree builder
  when there is one, stamp the entry with the running index, send it, advance.
  \<open>hashLeaf\<close> and \<open>MerkleTreeBuilder.Add\<close> are defined elsewhere in the package and
  are parameters.
\<close>

fun deliver :: "(bytes \<Rightarrow> 'h) \<Rightarrow> ('tb \<Rightarrow> 'h \<Rightarrow> 'tb) \<Rightarrow> LogEntry list \<Rightarrow> fetchRange \<Rightarrow> 'tb world
    \<Rightarrow> fetchRange \<times> 'tb world" where
  "deliver hashLeaf Add [] r w = (r, w)"
| "deliver hashLeaf Add (logEntry # logEntries) r w =
     (let w1 = (case builder w of
                  None \<Rightarrow> w
                | Some tb \<Rightarrow> w\<lparr>builder := Some (Add tb (hashLeaf (LeafBytes logEntry)))\<rparr>);
          w2 = emit (Send (logEntry\<lparr>Index := r_start r\<rparr>)) w1
      in deliver hashLeaf Add logEntries (r\<lparr>r_start := wrap64 (r_start r + 1)\<rparr>) w2)"

text \<open>
  One pass through the body of \<open>for !success\<close>: either \<open>fetch\<close> returns (an error or
  \<open>nil\<close>), or the loop goes round again with new values of \<open>r\<close>, \<open>retries\<close> and
  \<open>retryWait\<close>.
\<close>

datatype 'tb outcome =
    Return "error option" "'tb world"
  | Again fetchRange int int "'tb world"

definition fetch_body :: "Scanner \<Rightarrow> (bytes \<Rightarrow> 'h) \<Rightarrow> ('tb \<Rightarrow> 'h \<Rightarrow> 'tb) \<Rightarrow> fetchRange \<Rightarrow> int \<Rightarrow> int
    \<Rightarrow> 'tb world \<Rightarrow> 'tb outcome" where
  "fetch_body s hashLeaf Add r retries retryWait w =
     (let w1 = Log s (Fetching_entries (r_start r) (r_end r)) w;
          w2 = emit (GetEntries_call (r_start r) (r_end r)) (w1\<lparr>requests := Suc (requests w1)\<rparr>)
      in case GetEntries (logClient s) (requests w) (r_start r) (r_end r) of
           Inl err \<Rightarrow>
             if retries = 0 then
               Return (Some err) (Warn s (Problem_fetching (r_start r) (r_end r) (Error err)) w2)
             else
               Again r (retries - 1) (retryWait * 2)
                 (emit (Sleep retryWait)
                   (Log s (Problem_fetching_will_retry (r_start r) (r_end r) (Error err)) w2))
         | Inr logEntries \<Rightarrow>
             (case deliver hashLeaf Add logEntries r w2 of
                (r', w3) \<Rightarrow>
                  if r_start r' > r_end r' then Return None w3
                  else Again r' FETCH_RETRIES FETCH_RETRY_WAIT w3))"

text \<open>
  The loop itself may run forever, so it is a partial function: \<open>None\<close> means that
  \<open>fetch\<close> never returns.
\<close>

partial_function (option) fetch_loop :: "Scanner \<Rightarrow> (bytes \<Rightarrow> 'h) \<Rightarrow> ('tb \<Rightarrow> 'h \<Rightarrow> 'tb)
    \<Rightarrow> fetchRange \<Rightarrow> int \<Rightarrow> int \<Rightarrow> 'tb world \<Rightarrow> (error option \<times> 'tb world) option" where
  "fetch_loop s hashLeaf Add r retries retryWait w =
     (case fetch_body s hashLeaf Add r retries retryWait w of
        Return err w' \<Rightarrow> Some (err, w')
      | Again r' retries' retryWait' w' \<Rightarrow> fetch_loop s hashLeaf Add r' retries' retryWait' w')"

declare fetch_loop.simps [code]

definition fetch :: "Scanner \<Rightarrow> (bytes \<Rightarrow> 'h) \<Rightarrow> ('tb \<Rightarrow> 'h \<Rightarrow> 'tb) \<Rightarrow> fetchRange \<Rightarrow> 'tb world
    \<Rightarrow> (error option \<times> 'tb world) option" where
  "fetch s hashLeaf Add r w = fetch_loop s hashLeaf Add r FETCH_RETRIES FETCH_RETRY_WAIT w"

text \<open>
  The first \<open>n\<close> passes of the loop, for statements about runs that have not returned
  (yet): \<open>Again\<close> is the state the loop is in after \<open>n\<close> passes.
\<close>

fun fetch_passes :: "nat \<Rightarrow> Scanner \<Rightarrow> (bytes \<Rightarrow> 'h) \<Rightarrow> ('tb \<Rightarrow> 'h \<Rightarrow> 'tb)
    \<Rightarrow> fetchRange \<Rightarrow> int \<Rightarrow> int \<Rightarrow> 'tb world \<Rightarrow> 'tb outcome" where
  "fetch_passes 0 s hashLeaf Add r retries retryWait w = Again r retries retryWait w"
| "fetch_passes (Suc n) s hashLeaf Add r retries retryWait w =
     (case fetch_body s hashLeaf Add r retries retryWait w of
        Return err w' \<Rightarrow> Return err w'
      | Again r' retries' retryWait' w' \<Rightarrow> fetch_passes n s hashLeaf Add r' retries' retryWait' w')"

section \<open>Scan\<close>

text \<open>
  The batch loop of \<open>Scan\<close>. It runs forever when a \<open>fetch\<close> does, or when
  \<open>BatchSize\<close> does not advance \<open>start\<close>.
\<close>

partial_function (option) Scan_loop :: "Scanner \<Rightarrow> (bytes \<Rightarrow> 'h) \<Rightarrow> ('tb \<Rightarrow> 'h \<Rightarrow> 'tb)
    \<Rightarrow> int \<Rightarrow> int \<Rightarrow> 'tb world \<Rightarrow> (error option \<times> 'tb world) option" where
  "Scan_loop s hashLeaf Add endIndex start w =
     (if start < endIndex then
        (let end' = wrap64 (min_int64 (wrap64 (start + BatchSize (opts s))) endIndex - 1)
         in Option.bind (fetch s hashLeaf Add \<lparr>r_start = start, r_end = end'\<rparr> w)
              (\<lambda>(err, w'). case err of
                  Some e \<Rightarrow> Some (Some e, w')
                | None \<Rightarrow> Scan_loop s hashLeaf Add endIndex (wrap64 (end' + 1)) w'))
      else Some (None, w))"

declare Scan_loop.simps [code]

text \<open>
  The batch loop after its first \<open>n\<close> batches, when each of them was fetched without
  error: the \<open>start\<close> of the next batch and the world it is fetched in. \<open>None\<close> when
  the loop does not get that far (it has returned, or a fetch does not return).
\<close>

fun batches :: "nat \<Rightarrow> Scanner \<Rightarrow> (bytes \<Rightarrow> 'h) \<Rightarrow> ('tb \<Rightarrow> 'h \<Rightarrow> 'tb) \<Rightarrow> int \<Rightarrow> int \<Rightarrow> 'tb world
    \<Rightarrow> (int \<times> 'tb world) option" where
  "batches 0 s hashLeaf Add endIndex start w = Some (start, w)"
| "batches (Suc n) s hashLeaf Add endIndex start w =
     (if start < endIndex then
        (let end' = wrap64 (min_int64 (wrap64 (start + BatchSize (opts s))) endIndex - 1)
         in case fetch s hashLeaf Add \<lparr>r_start = start, r_end = end'\<rparr> w of
              Some (None, w') \<Rightarrow> batches n s hashLeaf Add endIndex (wrap64 (end' + 1)) w'
            | _ \<Rightarrow> None)
      else None)"

text \<open>
  \<open>Scan\<close> as the calling goroutine runs it: its result and its actions, provided
  none of them blocks for ever. Starting a worker is the action \<open>Go_processerJob\<close>
  (with its \<open>processorWG.Add(1)\<close>); what the workers do with the entries sent, and
  whether the caller gets past its sends and its \<open>Wait\<close>, is the concurrent system
  of the next section. The callback is handed to the workers only.
\<close>

definition Scan :: "Scanner \<Rightarrow> (bytes \<Rightarrow> 'h) \<Rightarrow> ('tb \<Rightarrow> 'h \<Rightarrow> 'tb) \<Rightarrow> int \<Rightarrow> int \<Rightarrow> 'tb world
    \<Rightarrow> (error option \<times> 'tb world) option" where
  "Scan s hashLeaf Add startIndex endIndex w =
     (let w1 = Log s Starting_scan w;
          w2 = emit Reset_certsProcessed w1;
          w3 = w2\<lparr>events := events w2 @ map Go_processerJob [0..NumWorkers (opts s) - 1]\<rparr>
      in Option.bind (Scan_loop s hashLeaf Add endIndex startIndex w3)
           (\<lambda>(err, w4). case err of
               Some e \<Rightarrow> Some (Some e, w4)
             | None \<Rightarrow>
                 Some (None,
                   (if \<not> Quiet (opts s) then emit Print_Completed else id)
                     (emit WaitGroup_Wait (emit Close_jobs w4)))))"

section \<open>GetSTH and CheckConsistency\<close>

text \<open>
  \<open>ct.NewSignatureVerifier\<close> and \<open>VerifySTHSignature\<close> belong to package \<open>ct\<close> and
  are parameters. The result is the Go pair (head or \<open>nil\<close>, error or \<open>nil\<close>),
  together with the collaborator calls made.
\<close>

definition GetSTH :: "Scanner \<Rightarrow> (PublicKey \<Rightarrow> error + 'v) \<Rightarrow> ('v \<Rightarrow> SignedTreeHead \<Rightarrow> error option)
    \<Rightarrow> (SignedTreeHead option \<times> error option) \<times> event list" where
  "GetSTH s NewSignatureVerifier VerifySTHSignature =
     (case GetSTH_rpc (logClient s) of
        Inl err \<Rightarrow> ((None, Some err), [GetSTH_call])
      | Inr latestSth \<Rightarrow>
          (case publicKey s of
             None \<Rightarrow> ((Some latestSth, None), [GetSTH_call])
           | Some key \<Rightarrow>
               (case NewSignatureVerifier key of
                  Inl err \<Rightarrow> ((None, Some err), [GetSTH_call, NewSignatureVerifier_call key])
                | Inr verifier \<Rightarrow>
                    (case VerifySTHSignature verifier latestSth of
                       Some err \<Rightarrow>
                         ((None, Some (errors_New (''STH signature is invalid: '' @ Error err))),
                          [GetSTH_call, NewSignatureVerifier_call key,
                           VerifySTHSignature_call latestSth])
                     | None \<Rightarrow>
                         ((Some latestSth, None),
                          [GetSTH_call, NewSignatureVerifier_call key,
                           VerifySTHSignature_call latestSth])))))"

text \<open>
  \<open>VerifyConsistencyProof\<close> is defined elsewhere in the package and is a parameter.
  The arguments are the two heads the pointers \<open>first\<close> and \<open>second\<close> point to.
  \<open>int64(first.TreeSize)\<close> reads the unsigned size as a signed number.
\<close>

definition CheckConsistency :: "Scanner
    \<Rightarrow> (ConsistencyProof \<Rightarrow> SignedTreeHead \<Rightarrow> SignedTreeHead \<Rightarrow> bool \<times> 'tb option)
    \<Rightarrow> SignedTreeHead \<Rightarrow> SignedTreeHead
    \<Rightarrow> (bool \<times> 'tb option \<times> ConsistencyProof \<times> error option) \<times> event list" where
  "CheckConsistency s VerifyConsistencyProof first second =
     (if TreeSize first > TreeSize second then
        ((False, None, None, None), [])
      else if TreeSize first = TreeSize second then
        (let proof = Some [];
             (valid, treeBuilder) = VerifyConsistencyProof proof first second
         in ((valid, treeBuilder, proof, None),
             [VerifyConsistencyProof_call proof first second]))
      else
        (case GetConsistencyProof (logClient s) (sint (TreeSize first)) (sint (TreeSize second)) of
           Inl err \<Rightarrow>
             ((False, None, None, Some err),
              [GetConsistencyProof_call (sint (TreeSize first)) (sint (TreeSize second))])
         | Inr proof \<Rightarrow>
             (let (valid, treeBuilder) = VerifyConsistencyProof proof first second
              in ((valid, treeBuilder, proof, None),
                  [GetConsistencyProof_call (sint (TreeSize first)) (sint (TreeSize second)),
                   VerifyConsistencyProof_call proof first second]))))"

section \<open>The worker pool\<close>

text \<open>
  The goroutines of one \<open>Scan\<close> share the channel \<open>jobs\<close> (buffered, capacity
  100), the wait group \<open>processorWG\<close> and the counter \<open>certsProcessed\<close>. A worker
  is at one of four points of \<open>processerJob\<close>: waiting to receive, holding an entry
  it has just received, inside the callback (the counter already incremented), or
  past \<open>wg.Done()\<close>.
\<close>

datatype worker = Receiving | Received LogEntry | Calling LogEntry | Exited

text \<open>
  \<open>main\<close> is what the goroutine that called \<open>Scan\<close> still has to do: \<open>Scan\<close> has
  returned when it is empty. \<open>processed\<close> lists the entries whose callback invocation
  has returned, \<open>console\<close> the lines printed.
\<close>

record system =
  main :: "event list"
  jobs :: "LogEntry list"
  closed :: bool
  processorWG :: int
  workers :: "worker list"
  certsProcessed :: int
  processed :: "LogEntry list"
  console :: "message list"

definition start_system :: "int \<Rightarrow> event list \<Rightarrow> system" where
  "start_system c acts =
     \<lparr>main = acts, jobs = [], closed = False, processorWG = 0, workers = [],
      certsProcessed = c, processed = [], console = []\<rparr>"

text \<open>
  One step of the calling goroutine: the next action of \<open>Scan\<close>. A send blocks while
  the buffer is full and \<open>Wait\<close> blocks while the wait group is not zero. Sending on,
  or closing, a closed channel panics: the goroutine never gets past it either. The
  requests to the log and the sleeps do not touch the shared state.
\<close>

fun blocked :: "event \<Rightarrow> system \<Rightarrow> bool" where
  "blocked (Send e) s = (closed s \<or> 100 \<le> length (jobs s))"
| "blocked Close_jobs s = closed s"
| "blocked WaitGroup_Wait s = (processorWG s \<noteq> 0)"
| "blocked _ s = False"

fun perform :: "event \<Rightarrow> system \<Rightarrow> system" where
  "perform (Send e) s = s\<lparr>jobs := jobs s @ [e]\<rparr>"
| "perform Close_jobs s = s\<lparr>closed := True\<rparr>"
| "perform Reset_certsProcessed s = s\<lparr>certsProcessed := 0\<rparr>"
| "perform (Go_processerJob w) s =
     s\<lparr>processorWG := processorWG s + 1, workers := workers s @ [Receiving]\<rparr>"
| "perform (Print m) s = s\<lparr>console := console s @ [m]\<rparr>"
| "perform Print_Completed s = s\<lparr>console := console s @ [Completed_certs (certsProcessed s)]\<rparr>"
| "perform _ s = s"

definition main_step :: "system \<Rightarrow> system" where
  "main_step s =
     (case main s of
        [] \<Rightarrow> s
      | a # rest \<Rightarrow> if blocked a s then s else perform a (s\<lparr>main := rest\<rparr>))"

text \<open>
  One step of worker \<open>i\<close>, the body of \<open>processerJob\<close>: receive (or leave the loop
  and call \<open>wg.Done()\<close> when the channel is closed and drained), then
  \<open>atomic.AddInt64(&s.certsProcessed, 1)\<close>, then the callback.
\<close>

definition processerJob :: "nat \<Rightarrow> system \<Rightarrow> system" where
  "processerJob i s =
     (if i < length (workers s) then
        (case workers s ! i of
           Receiving \<Rightarrow>
             (case jobs s of
                entry # rest \<Rightarrow> s\<lparr>jobs := rest, workers := (workers s)[i := Received entry]\<rparr>
              | [] \<Rightarrow>
                  if closed s
                  then s\<lparr>workers := (workers s)[i := Exited], processorWG := processorWG s - 1\<rparr>
                  else s)
         | Received entry \<Rightarrow>
             s\<lparr>certsProcessed := wrap64 (certsProcessed s + 1),
               workers := (workers s)[i := Calling entry]\<rparr>
         | Calling entry \<Rightarrow>
             s\<lparr>processed := processed s @ [entry], workers := (workers s)[i := Receiving]\<rparr>
         | Exited \<Rightarrow> s)
      else s)"

text \<open>
  The scheduler picks any goroutine at each step; a run is the list of its choices.
  Every interleaving of the goroutines is the run of some list.
\<close>

datatype goroutine = Main | Worker nat

fun step :: "goroutine \<Rightarrow> system \<Rightarrow> system" where
  "step Main s = main_step s"
| "step (Worker i) s = processerJob i s"

fun run :: "goroutine list \<Rightarrow> system \<Rightarrow> system" where
  "run [] s = s"
| "run (g # gs) s = run gs (step g s)"

text \<open>
  \<open>certsProcessed\<close> is a field of the \<open>Scanner\<close>. Each call of \<open>Scan\<close> makes its own
  channel and wait group and starts its own workers, but the workers of all calls on
  one \<open>Scanner\<close> count into the same field. A \<open>Scan\<close> that returned an error has left
  its workers behind, on a channel that is never closed. So when the calls on a
  \<open>Scanner\<close> follow one another, the goroutines that touch the counter are those of the
  \<open>current\<close> call and the workers of the pools left by \<open>earlier\<close> ones. A step of
  worker \<open>i\<close> of the earlier pool \<open>k\<close> is a step of \<open>processerJob\<close> on that pool's
  channel and on the shared counter. (Calls that overlap in time are not modelled.)
\<close>

record pools =
  current :: system
  earlier :: "system list"

datatype actor = Current goroutine | Earlier nat nat

fun act :: "actor \<Rightarrow> pools \<Rightarrow> pools" where
  "act (Current g) p = p\<lparr>current := step g (current p)\<rparr>"
| "act (Earlier k i) p =
     (if k < length (earlier p) then
        (let old = processerJob i ((earlier p ! k)\<lparr>certsProcessed := certsProcessed (current p)\<rparr>)
         in \<lparr>current = (current p)\<lparr>certsProcessed := certsProcessed old\<rparr>,
             earlier = (earlier p)[k := old]\<rparr>)
      else p)"

fun acts :: "actor list \<Rightarrow> pools \<Rightarrow> pools" where
  "acts [] p = p"
| "acts (a # as) p = acts as (act a p)"

text \<open>The entries sent on the channel, in the order of sending.\<close>

fun sends :: "event list \<Rightarrow> LogEntry list" where
  "sends [] = []"
| "sends (Send e # evs) = e # sends evs"
| "sends (_ # evs) = sends evs"

text \<open>The \<open>get-entries\<close> requests made, in order.\<close>

fun calls :: "event list \<Rightarrow> (int \<times> int) list" where
  "calls [] = []"
| "calls (GetEntries_call a b # evs) = (a, b) # calls evs"
| "calls (_ # evs) = calls evs"

text \<open>The waits between attempts, in seconds, in order.\<close>

fun sleeps :: "event list \<Rightarrow> int list" where
  "sleeps [] = []"
| "sleeps (Sleep d # evs) = d # sleeps evs"
| "sleeps (_ # evs) = sleeps evs"

section \<open>Notions used in the statements\<close>

text \<open>
  The entries of one response as \<open>fetch\<close> sends them: stamped with consecutive
  indices from \<open>a\<close> on.
\<close>

fun stamp :: "int \<Rightarrow> LogEntry list \<Rightarrow> LogEntry list" where
  "stamp a [] = []"
| "stamp a (e # es) = e\<lparr>Index := a\<rparr> # stamp (a + 1) es"

text \<open>The tree builder after the leaves of one response have been added to it.\<close>

definition feed :: "(bytes \<Rightarrow> 'h) \<Rightarrow> ('tb \<Rightarrow> 'h \<Rightarrow> 'tb) \<Rightarrow> LogEntry list \<Rightarrow> 'tb option \<Rightarrow> 'tb option" where
  "feed hashLeaf Add es b = map_option (\<lambda>tb. foldl (\<lambda>tb e. Add tb (hashLeaf (LeafBytes e))) tb es) b"

text \<open>What one request for the range \<open>r\<close> adds to the trace.\<close>

definition request_events :: "Scanner \<Rightarrow> fetchRange \<Rightarrow> event list" where
  "request_events s r =
     (if Quiet (opts s) then [] else [Print (Fetching_entries (r_start r) (r_end r))])
     @ [GetEntries_call (r_start r) (r_end r)]"

text \<open>
  The trace of consecutive failed attempts that are retried, the first of them waiting
  \<open>wt\<close> seconds; \<open>errs\<close> are the errors returned, in order.
\<close>

fun failed_attempts :: "Scanner \<Rightarrow> fetchRange \<Rightarrow> int \<Rightarrow> error list \<Rightarrow> event list" where
  "failed_attempts s r wt [] = []"
| "failed_attempts s r wt (err # errs) =
     request_events s r
     @ (if Quiet (opts s) then []
        else [Print (Problem_fetching_will_retry (r_start r) (r_end r) (Error err))])
     @ [Sleep wt] @ failed_attempts s r (wt * 2) errs"

text \<open>The actions \<open>fetch\<close> can perform.\<close>

fun fetch_event :: "event \<Rightarrow> bool" where
  "fetch_event (Print m) = True"
| "fetch_event (GetEntries_call a b) = True"
| "fetch_event (Sleep d) = True"
| "fetch_event (Send e) = True"
| "fetch_event _ = False"

text \<open>What \<open>Scan\<close> does before the first batch, and after the last one.\<close>

definition prologue :: "Scanner \<Rightarrow> event list" where
  "prologue s =
     (if Quiet (opts s) then [] else [Print Starting_scan])
     @ [Reset_certsProcessed] @ map Go_processerJob [0..NumWorkers (opts s) - 1]"

definition epilogue :: "Scanner \<Rightarrow> event list" where
  "epilogue s =
     [Close_jobs, WaitGroup_Wait] @ (if Quiet (opts s) then [] else [Print_Completed])"

text \<open>
  A trace that ends with the request that failed for good: the request, then the
  warning with the error's text; \<open>n\<close> is the number of requests made by then.
\<close>

definition ends_with_failure :: "Scanner \<Rightarrow> nat \<Rightarrow> error \<Rightarrow> event list \<Rightarrow> bool" where
  "ends_with_failure s n err new =
     (\<exists>a b pre. new = pre @ [GetEntries_call a b, Print (Problem_fetching a b (Error err))] \<and>
        0 < n \<and> GetEntries (logClient s) (n - 1) a b = Inl err)"

text \<open>
  Bookkeeping over the workers: the entry a worker holds, whether it has incremented
  the counter for an entry whose callback has not returned, whether it has not yet
  called \<open>wg.Done()\<close>.
\<close>

fun held :: "worker \<Rightarrow> LogEntry multiset" where
  "held (Received e) = {#e#}"
| "held (Calling e) = {#e#}"
| "held _ = {#}"

fun counted :: "worker \<Rightarrow> nat" where
  "counted (Calling e) = 1"
| "counted _ = 0"

fun alive :: "worker \<Rightarrow> nat" where
  "alive Exited = 0"
| "alive _ = 1"

fun is_spawn :: "event \<Rightarrow> bool" where
  "is_spawn (Go_processerJob w) = True"
| "is_spawn _ = False"

text \<open>No action satisfying \<open>X\<close> comes later in the list than one satisfying \<open>Y\<close>.\<close>

primrec no_later :: "(event \<Rightarrow> bool) \<Rightarrow> (event \<Rightarrow> bool) \<Rightarrow> event list \<Rightarrow> bool" where
  "no_later X Y [] = True"
| "no_later X Y (a # as) = ((Y a \<longrightarrow> (\<forall>x\<in>set as. \<not> X x)) \<and> no_later X Y as)"

text \<open>
  The invariant of the worker pool, for a calling goroutine that sends the entries \<open>M\<close>
  in all: every entry is still to be sent, in the buffer, held by a worker, or
  processed; the wait group counts the workers that have not exited; a worker exits
  only from a closed and drained channel; the counter, once reset, counts the
  increments; workers are started after the reset and before the wait.
\<close>

definition pool_inv :: "LogEntry multiset \<Rightarrow> system \<Rightarrow> bool" where
  "pool_inv M s \<longleftrightarrow>
     mset (sends (main s)) + mset (jobs s) + sum_list (map held (workers s)) + mset (processed s) = M \<and>
     processorWG s = int (sum_list (map alive (workers s))) \<and>
     (Exited \<in> set (workers s) \<longrightarrow> closed s \<and> jobs s = []) \<and>
     (Reset_certsProcessed \<in> set (main s) \<longrightarrow> workers s = [] \<and> processed s = []) \<and>
     (Reset_certsProcessed \<notin> set (main s) \<longrightarrow>
        certsProcessed s = wrap64 (int (length (processed s) + sum_list (map counted (workers s))))) \<and>
     no_later (\<lambda>e. e = Reset_certsProcessed) is_spawn (main s) \<and>
     no_later is_spawn (\<lambda>e. e = WaitGroup_Wait) (main s) \<and>
     (WaitGroup_Wait \<in> set (main s) \<or> processorWG s = 0 \<and> (\<forall>e\<in>set (main s). \<not> is_spawn e)) \<and>
     ((\<exists>e\<in>set (main s). is_spawn e) \<or> workers s \<noteq> [])"


text \<open>
  A pool left by an earlier \<open>Scan\<close> that will not count any more: its channel is empty
  and none of its workers has received an entry that it has not counted yet.
\<close>

fun uncounted :: "worker \<Rightarrow> bool" where
  "uncounted (Received e) = True"
| "uncounted _ = False"

definition drained :: "system \<Rightarrow> bool" where
  "drained old \<longleftrightarrow> jobs old = [] \<and> \<not> list_ex uncounted (workers old)"

text \<open>The steps of a schedule that are steps of the current \<open>Scan\<close>.\<close>

fun own :: "actor list \<Rightarrow> goroutine list" where
  "own [] = []"
| "own (Current g # as) = g # own as"
| "own (Earlier k i # as) = own as"

text \<open>The world a pass of the loop of \<open>fetch\<close> leaves.\<close>

fun world_of :: "'tb outcome \<Rightarrow> 'tb world" where
  "world_of (Return err w) = w"
| "world_of (Again r retries retryWait w) = w"

text \<open>
  The pool at rest between two actions of the caller: \<open>n\<close> workers, all waiting on the
  open and empty channel, and \<open>rest\<close> still to be done by the caller.
\<close>

definition idle :: "nat \<Rightarrow> event list \<Rightarrow> system \<Rightarrow> bool" where
  "idle n rest s \<longleftrightarrow>
     main s = rest \<and> jobs s = [] \<and> \<not> closed s \<and> processorWG s = int n \<and>
     workers s = replicate n Receiving"

text \<open>
  A scheduler under which \<open>Scan\<close> returns: the caller runs its prologue alone; after
  each action of a fetch worker 0 takes what was sent through its callback; after the
  close every worker leaves its loop; then the caller gets past \<open>Wait\<close>.
\<close>

definition patient_schedule :: "Scanner \<Rightarrow> event list \<Rightarrow> goroutine list" where
  "patient_schedule s new =
     replicate (length (prologue s)) Main
     @ concat (map (\<lambda>e. [Main, Worker 0, Worker 0, Worker 0]) new)
     @ [Main] @ map Worker [0..<nat (NumWorkers (opts s))] @ [Main, Main]"

section \<open>Example inputs\<close>

text \<open>
  Scanners over small logs, used to run the definitions on concrete inputs. The log
  client answers every \<open>get-entries\<close> request with a fixed entry list, or fails the
  first \<open>k\<close> requests.
\<close>

definition example_entry :: LogEntry where
  "example_entry = \<lparr>Index = 0, LeafBytes = []\<rparr>"

definition example_scanner :: "int \<Rightarrow> int \<Rightarrow> (nat \<Rightarrow> int \<Rightarrow> int \<Rightarrow> error + LogEntry list) \<Rightarrow> Scanner" where
  "example_scanner bs nw g =
     \<lparr>LogUri = ''log'', publicKey = None,
      logClient = \<lparr>GetEntries = g, GetSTH_rpc = Inl (Collaborator ''unused''),
                   GetConsistencyProof = (\<lambda>a b. Inl (Collaborator ''unused''))\<rparr>,
      opts = \<lparr>BatchSize = bs, NumWorkers = nw, Quiet = True\<rparr>\<rparr>"

definition one_at_a_time :: "nat \<Rightarrow> int \<Rightarrow> int \<Rightarrow> error + LogEntry list" where
  "one_at_a_time n a b = Inr [example_entry]"

definition two_at_a_time :: "nat \<Rightarrow> int \<Rightarrow> int \<Rightarrow> error + LogEntry list" where
  "two_at_a_time n a b = Inr [example_entry, example_entry]"

definition always_empty :: "nat \<Rightarrow> int \<Rightarrow> int \<Rightarrow> error + LogEntry list" where
  "always_empty n a b = Inr []"


definition fails_first :: "nat \<Rightarrow> nat \<Rightarrow> int \<Rightarrow> int \<Rightarrow> error + LogEntry list" where
  "fails_first k n a b = (if n < k then Inl (Collaborator ''timeout'') else Inr [example_entry])"

definition no_builder :: "unit world" where
  "no_builder = \<lparr>requests = 0, builder = None, events = []\<rparr>"

definition no_hash :: "bytes \<Rightarrow> unit" where
  "no_hash b = ()"

definition no_Add :: "unit \<Rightarrow> unit \<Rightarrow> unit" where
  "no_Add tb h = tb"

definition example_sth :: "64 word \<Rightarrow> SignedTreeHead" where
  "example_sth n = \<lparr>TreeSize = n, Timestamp = 0, SHA256RootHash = [], TreeHeadSignature = []\<rparr>"

text \<open>
  Scanners for \<open>GetSTH\<close>: a log public key or none, and the log's answer to
  \<open>get-sth\<close>; signature verifiers that cannot be built, that reject, that accept.
\<close>

definition sth_scanner :: "PublicKey option \<Rightarrow> error + SignedTreeHead \<Rightarrow> Scanner" where
  "sth_scanner key answer =
     NewScanner ''log'' key DefaultScannerOptions
       (\<lambda>uri. \<lparr>GetEntries = one_at_a_time, GetSTH_rpc = answer,
                GetConsistencyProof = (\<lambda>a b. Inl (Collaborator ''unused''))\<rparr>)"

definition unsupported_key :: "PublicKey \<Rightarrow> error + unit" where
  "unsupported_key key = Inl (Collaborator ''unsupported public key type'')"

definition any_key :: "PublicKey \<Rightarrow> error + unit" where
  "any_key key = Inr ()"

definition reject_signature :: "unit \<Rightarrow> SignedTreeHead \<Rightarrow> error option" where
  "reject_signature v sth = Some (Collaborator ''bad signature'')"

definition accept_signature :: "unit \<Rightarrow> SignedTreeHead \<Rightarrow> error option" where
  "accept_signature v sth = None"

definition accept_proof :: "ConsistencyProof \<Rightarrow> SignedTreeHead \<Rightarrow> SignedTreeHead \<Rightarrow> bool \<times> unit option" where
  "accept_proof proof first second = (True, Some ())"

text \<open>
  A scan of \<open>[0, 3)\<close> in batches of two by two workers, against a log that answers
  one entry at a time: what the calling goroutine does, and one interleaving with the
  workers, in which worker 1 takes entries 0 and 2, worker 0 takes entry 1, and the
  caller finds the wait group not yet at zero the first time it reaches \<open>Wait\<close>.
\<close>

definition example_trace :: "event list" where
  "example_trace =
     [Reset_certsProcessed, Go_processerJob 0, Go_processerJob 1,
      GetEntries_call 0 1, Send \<lparr>Index = 0, LeafBytes = []\<rparr>,
      GetEntries_call 1 1, Send \<lparr>Index = 1, LeafBytes = []\<rparr>,
      GetEntries_call 2 2, Send \<lparr>Index = 2, LeafBytes = []\<rparr>,
      Close_jobs, WaitGroup_Wait]"

definition example_schedule :: "goroutine list" where
  "example_schedule =
     [Main, Main, Main, Main, Main, Worker 1, Main, Main, Worker 0, Worker 0, Worker 1,
      Worker 0, Main, Main, Worker 1, Worker 1, Main, Worker 0, Worker 1, Worker 1,
      Main, Worker 1, Main]"

text \<open>
  The same for a scan of \<open>[0, 2)\<close> in batches of one by one worker, against a log
  that answers two entries to every request.
\<close>

definition overlong_trace :: "event list" where
  "overlong_trace =
     [Reset_certsProcessed, Go_processerJob 0,
      GetEntries_call 0 0, Send \<lparr>Index = 0, LeafBytes = []\<rparr>, Send \<lparr>Index = 1, LeafBytes = []\<rparr>,
      GetEntries_call 1 1, Send \<lparr>Index = 1, LeafBytes = []\<rparr>, Send \<lparr>Index = 2, LeafBytes = []\<rparr>,
      Close_jobs, WaitGroup_Wait]"


text \<open>
  What the calling goroutine does in a scan of \<open>[0, 1)\<close> when the first ten
  requests fail and the eleventh succeeds, and when the first eleven fail.
\<close>

definition ten_failures_trace :: "event list" where
  "ten_failures_trace =
     [Reset_certsProcessed, Go_processerJob 0,
      GetEntries_call 0 0, Sleep 1, GetEntries_call 0 0, Sleep 2, GetEntries_call 0 0, Sleep 4,
      GetEntries_call 0 0, Sleep 8, GetEntries_call 0 0, Sleep 16, GetEntries_call 0 0, Sleep 32,
      GetEntries_call 0 0, Sleep 64, GetEntries_call 0 0, Sleep 128, GetEntries_call 0 0, Sleep 256,
      GetEntries_call 0 0, Sleep 512, GetEntries_call 0 0,
      Send \<lparr>Index = 0, LeafBytes = []\<rparr>, Close_jobs, WaitGroup_Wait]"

text \<open>
  An interleaving for the first of the two: the caller runs up to the close, the
  worker takes the entry through its callback and leaves, the caller gets past \<open>Wait\<close>.
\<close>

definition ten_failures_schedule :: "goroutine list" where
  "ten_failures_schedule = replicate 25 Main @ replicate 4 (Worker 0) @ [Main]"


text \<open>
  A log that answers the first \<open>k\<close> requests with one entry and fails all later ones,
  and what the calling goroutine does in a scan of \<open>[0, 2)\<close> in batches of one when
  \<open>k\<close> is 1: the second batch is requested eleven times.
\<close>

definition fails_from :: "nat \<Rightarrow> nat \<Rightarrow> int \<Rightarrow> int \<Rightarrow> error + LogEntry list" where
  "fails_from k n a b = (if n < k then Inr [example_entry] else Inl (Collaborator ''timeout''))"

definition second_batch_trace :: "event list" where
  "second_batch_trace =
     [Reset_certsProcessed, Go_processerJob 0,
      GetEntries_call 0 0, Send \<lparr>Index = 0, LeafBytes = []\<rparr>,
      GetEntries_call 1 1, Sleep 1, GetEntries_call 1 1, Sleep 2, GetEntries_call 1 1, Sleep 4,
      GetEntries_call 1 1, Sleep 8, GetEntries_call 1 1, Sleep 16, GetEntries_call 1 1, Sleep 32,
      GetEntries_call 1 1, Sleep 64, GetEntries_call 1 1, Sleep 128, GetEntries_call 1 1, Sleep 256,
      GetEntries_call 1 1, Sleep 512, GetEntries_call 1 1,
      Print (Problem_fetching 1 1 ''timeout'')]"

text \<open>
  The same in a scan of \<open>[0, 4)\<close> in batches of two when \<open>k\<close> is 3: the second batch
  is answered by one entry, and the request for the rest of it is made eleven times.
\<close>

definition late_failure_trace :: "event list" where
  "late_failure_trace =
     [Reset_certsProcessed, Go_processerJob 0,
      GetEntries_call 0 1, Send \<lparr>Index = 0, LeafBytes = []\<rparr>,
      GetEntries_call 1 1, Send \<lparr>Index = 1, LeafBytes = []\<rparr>,
      GetEntries_call 2 3, Send \<lparr>Index = 2, LeafBytes = []\<rparr>,
      GetEntries_call 3 3, Sleep 1, GetEntries_call 3 3, Sleep 2, GetEntries_call 3 3, Sleep 4,
      GetEntries_call 3 3, Sleep 8, GetEntries_call 3 3, Sleep 16, GetEntries_call 3 3, Sleep 32,
      GetEntries_call 3 3, Sleep 64, GetEntries_call 3 3, Sleep 128, GetEntries_call 3 3, Sleep 256,
      GetEntries_call 3 3, Sleep 512, GetEntries_call 3 3,
      Print (Problem_fetching 3 3 ''timeout'')]"

text \<open>
  A log that fails requests 0, 1, 2, 4 and 5 and answers the others with one entry.
\<close>

definition flaky :: "nat \<Rightarrow> int \<Rightarrow> int \<Rightarrow> error + LogEntry list" where
  "flaky n a b =
     (if n \<in> {0, 1, 2, 4, 5} then Inl (Collaborator ''timeout'') else Inr [example_entry])"

text \<open>The range \<open>{0, 1}\<close>, and the world after three failed requests for it.\<close>

definition two_entries :: fetchRange where
  "two_entries = \<lparr>r_start = 0, r_end = 1\<rparr>"

definition after_three_failures :: "unit world" where
  "after_three_failures =
     \<lparr>requests = 3, builder = None,
      events = [GetEntries_call 0 1, Sleep 1, GetEntries_call 0 1, Sleep 2,
                GetEntries_call 0 1, Sleep 4]\<rparr>"

definition flaky_trace :: "event list" where
  "flaky_trace =
     [GetEntries_call 0 1, Sleep 1, GetEntries_call 0 1, Sleep 2, GetEntries_call 0 1, Sleep 4,
      GetEntries_call 0 1, Send \<lparr>Index = 0, LeafBytes = []\<rparr>,
      GetEntries_call 1 1, Sleep 1, GetEntries_call 1 1, Sleep 2,
      GetEntries_call 1 1, Send \<lparr>Index = 1, LeafBytes = []\<rparr>]"



text \<open>
  In the second the log was out of reach from the second request to the twelfth: the
  \<open>Scan\<close> of \<open>[0, 2)\<close> in batches of one sent entry 0, failed on the second batch and
  returned before its worker had run, so that entry 0 is still in the channel. The next
  \<open>Scan\<close> on the same \<open>Scanner\<close> is of \<open>[10, 11)\<close>; in the schedule its worker takes
  entry 10 through its callback, then the worker left behind receives entry 0 and counts
  it, then the caller closes, waits and returns.
\<close>

definition outage :: "nat \<Rightarrow> int \<Rightarrow> int \<Rightarrow> error + LogEntry list" where
  "outage n a b =
     (if 1 \<le> n \<and> n < 12 then Inl (Collaborator ''timeout'') else Inr [example_entry])"

definition undrained_pool :: system where
  "undrained_pool = run (replicate 26 Main) (start_system 0 second_batch_trace)"

definition next_scan_trace :: "event list" where
  "next_scan_trace =
     [Reset_certsProcessed, Go_processerJob 0,
      GetEntries_call 10 10, Send \<lparr>Index = 10, LeafBytes = []\<rparr>,
      Close_jobs, WaitGroup_Wait]"

definition leak_schedule :: "actor list" where
  "leak_schedule =
     replicate 4 (Current Main) @ replicate 3 (Current (Worker 0)) @ replicate 2 (Earlier 0 0)
     @ [Current Main, Current (Worker 0), Current Main]"

text \<open>What the caller does in a scan of \<open>[0, 1)\<close> with no worker at all.\<close>

definition no_worker_trace :: "event list" where
  "no_worker_trace =
     [Reset_certsProcessed, GetEntries_call 0 0, Send \<lparr>Index = 0, LeafBytes = []\<rparr>,
      Close_jobs, WaitGroup_Wait]"

section \<open>Properties of fetch and Scan\<close>

lemma wrap64_id: "- (2 ^ 63) \<le> x \<Longrightarrow> x < 2 ^ 63 \<Longrightarrow> wrap64 x = x"
  unfolding wrap64_def by (simp add: mod_pos_pos_trivial)

lemma wrap64_wrap64_Suc: "wrap64 (wrap64 x + 1) = wrap64 (x + 1)"
  unfolding wrap64_def by (simp add: mod_simps algebra_simps)

lemma length_stamp: "length (stamp a es) = length es"
  by (induction es arbitrary: a) auto

lemma Index_stamp: "map Index (stamp a es) = [a..a + int (length es) - 1]"
proof (induction es arbitrary: a)
  case Nil
  then show ?case by simp
next
  case (Cons e es)
  have "[a..a + int (length (e # es)) - 1] = a # [a + 1..a + 1 + int (length es) - 1]"
    by (subst upto_rec1) (auto simp: algebra_simps)
  with Cons show ?case by simp
qed

lemma sends_append: "sends (xs @ ys) = sends xs @ sends ys"
  by (induction xs rule: sends.induct) auto

lemma calls_append: "calls (xs @ ys) = calls xs @ calls ys"
  by (induction xs rule: calls.induct) auto

lemma sleeps_append: "sleeps (xs @ ys) = sleeps xs @ sleeps ys"
  by (induction xs rule: sleeps.induct) auto

lemma sends_map_Send: "sends (map Send es) = es"
  by (induction es) auto


lemma sleeps_map_Send: "sleeps (map Send es) = []"
  by (induction es) auto

lemma deliver_range:
  "- (2 ^ 63) \<le> r_start r \<Longrightarrow> r_start r + int (length es) < 2 ^ 63 \<Longrightarrow>
   deliver hashLeaf Add es r w =
     (r\<lparr>r_start := r_start r + int (length es)\<rparr>,
      w\<lparr>builder := feed hashLeaf Add es (builder w),
        events := events w @ map Send (stamp (r_start r) es)\<rparr>)"
proof (induction es arbitrary: r w)
  case Nil
  then show ?case by (simp add: feed_def option.map_ident)
next
  case (Cons e es)
  have w: "wrap64 (r_start r + 1) = r_start r + 1"
    using Cons.prems by (intro wrap64_id) auto
  show ?case
    using Cons.prems
    by (subst deliver.simps, simp only: Let_def w, subst Cons.IH)
       (auto simp: emit_def feed_def split: option.splits)
qed

lemma deliver_events:
  "\<exists>xs. events (snd (deliver hashLeaf Add es r w)) = events w @ map Send xs \<and> length xs = length es"
proof (induction es arbitrary: r w)
  case Nil
  then show ?case by simp
next
  case (Cons e es)
  let ?w1 = "case builder w of None \<Rightarrow> w
             | Some tb \<Rightarrow> w\<lparr>builder := Some (Add tb (hashLeaf (LeafBytes e)))\<rparr>"
  let ?w2 = "emit (Send (e\<lparr>Index := r_start r\<rparr>)) ?w1"
  have ev: "events ?w2 = events w @ [Send (e\<lparr>Index := r_start r\<rparr>)]"
    by (simp add: emit_def split: option.splits)
  from Cons [of "r\<lparr>r_start := wrap64 (r_start r + 1)\<rparr>" ?w2]
  obtain xs where "events (snd (deliver hashLeaf Add es (r\<lparr>r_start := wrap64 (r_start r + 1)\<rparr>) ?w2))
      = events ?w2 @ map Send xs" "length xs = length es"
    by blast
  then show ?case
    unfolding ev by (intro exI [of _ "e\<lparr>Index := r_start r\<rparr> # xs"]) (simp add: Let_def)
qed

lemma deliver_other:
  "requests (snd (deliver hashLeaf Add es r w)) = requests w \<and>
   r_end (fst (deliver hashLeaf Add es r w)) = r_end r"
  by (induction es arbitrary: r w) (auto simp: Let_def emit_def split: option.splits)

lemma sends_failed_attempts: "sends (failed_attempts s r wt errs) = []"
  by (induction errs arbitrary: wt) (auto simp: sends_append request_events_def)

lemma sleeps_failed_attempts:
  "sleeps (failed_attempts s r wt errs) = map (\<lambda>j. wt * 2 ^ j) [0..<length errs]"
proof (induction errs arbitrary: wt)
  case Nil
  then show ?case by simp
next
  case (Cons e errs)
  have "map (\<lambda>j. wt * 2 ^ j) [0..<length (e # errs)] = wt # map (\<lambda>j. wt * 2 * 2 ^ j) [0..<length errs]"
    by (simp add: upt_conv_Cons map_Suc_upt [symmetric] del: upt_Suc)
  with Cons show ?case
    by (simp add: sleeps_append request_events_def)
qed

lemma calls_failed_attempts:
  "calls (failed_attempts s r wt errs) = replicate (length errs) (r_start r, r_end r)"
  by (induction errs arbitrary: wt) (auto simp: calls_append request_events_def)

lemma fetch_event_failed_attempts: "list_all fetch_event (failed_attempts s r wt errs)"
  by (induction errs arbitrary: wt) (auto simp: request_events_def)

lemma fetch_body_fail:
  assumes "GetEntries (logClient s) (requests w) (r_start r) (r_end r) = Inl err"
  shows "fetch_body s h A r ret wt w =
    (if ret = 0 then
       Return (Some err)
         (w\<lparr>requests := Suc (requests w),
            events := events w @ request_events s r
              @ [Print (Problem_fetching (r_start r) (r_end r) (Error err))]\<rparr>)
     else
       Again r (ret - 1) (wt * 2)
         (w\<lparr>requests := Suc (requests w),
            events := events w @ failed_attempts s r wt [err]\<rparr>))"
  using assms
  by (simp add: fetch_body_def Let_def Log_def Warn_def emit_def request_events_def)

lemma fetch_body_ok:
  assumes "GetEntries (logClient s) (requests w) (r_start r) (r_end r) = Inr es"
    and "- (2 ^ 63) \<le> r_start r" and "r_start r + int (length es) < 2 ^ 63"
  shows "fetch_body s h A r ret wt w =
    (let w' = w\<lparr>requests := Suc (requests w), builder := feed h A es (builder w),
                 events := events w @ request_events s r @ map Send (stamp (r_start r) es)\<rparr>
     in if r_end r < r_start r + int (length es) then Return None w'
        else Again (r\<lparr>r_start := r_start r + int (length es)\<rparr>) FETCH_RETRIES FETCH_RETRY_WAIT w')"
  using assms
  by (simp add: fetch_body_def Let_def Log_def emit_def request_events_def deliver_range)

lemma fetch_passes_failures:
  assumes "\<And>j. j < length errs \<Longrightarrow>
      GetEntries (logClient s) (requests w + j) (r_start r) (r_end r) = Inl (errs ! j)"
    and "int (length errs) \<le> ret"
  shows "fetch_passes (length errs) s h A r ret wt w =
     Again r (ret - int (length errs)) (wt * 2 ^ length errs)
       (w\<lparr>requests := requests w + length errs,
          events := events w @ failed_attempts s r wt errs\<rparr>)"
  using assms
proof (induction errs arbitrary: ret wt w)
  case Nil
  then show ?case by simp
next
  case (Cons e errs)
  have first: "GetEntries (logClient s) (requests w) (r_start r) (r_end r) = Inl e"
    using Cons.prems(1) [of 0] by simp
  let ?w1 = "w\<lparr>requests := Suc (requests w), events := events w @ failed_attempts s r wt [e]\<rparr>"
  have body: "fetch_body s h A r ret wt w = Again r (ret - 1) (wt * 2) ?w1"
    using Cons.prems(2) by (simp add: fetch_body_fail [OF first])
  have rest: "fetch_passes (length errs) s h A r (ret - 1) (wt * 2) ?w1 =
     Again r (ret - 1 - int (length errs)) (wt * 2 * 2 ^ length errs)
       (?w1\<lparr>requests := requests ?w1 + length errs,
            events := events ?w1 @ failed_attempts s r (wt * 2) errs\<rparr>)"
  proof (rule Cons.IH)
    fix j assume "j < length errs"
    then show "GetEntries (logClient s) (requests ?w1 + j) (r_start r) (r_end r) = Inl (errs ! j)"
      using Cons.prems(1) [of "Suc j"] by simp
  next
    show "int (length errs) \<le> ret - 1" using Cons.prems(2) by simp
  qed
  have "fetch_passes (length (e # errs)) s h A r ret wt w =
      fetch_passes (length errs) s h A r (ret - 1) (wt * 2) ?w1"
    by (simp add: body)
  also note rest
  finally show ?case
    by (simp add: algebra_simps)
qed

lemma fetch_passes_Return:
  "fetch_passes n s h A r ret wt w = Return res w' \<Longrightarrow> fetch_loop s h A r ret wt w = Some (res, w')"
proof (induction n arbitrary: r ret wt w)
  case 0
  then show ?case by simp
next
  case (Suc n)
  then show ?case
    by (subst fetch_loop.simps) (auto split: outcome.splits)
qed

lemma fetch_passes_Again:
  "fetch_passes n s h A r ret wt w = Again r' ret' wt' w' \<Longrightarrow>
   fetch_loop s h A r ret wt w = fetch_loop s h A r' ret' wt' w'"
proof (induction n arbitrary: r ret wt w)
  case 0
  then show ?case by simp
next
  case (Suc n)
  then show ?case
    by (subst fetch_loop.simps) (auto split: outcome.splits)
qed

lemma fetch_loop_passes:
  assumes "fetch_loop s h A r ret wt w = Some y"
  shows "\<exists>n. fetch_passes n s h A r ret wt w = Return (fst y) (snd y)"
proof (rule fetch_loop.raw_induct
    [where P = "\<lambda>s h A r ret wt w y. \<exists>n. fetch_passes n s h A r ret wt w = Return (fst y) (snd y)",
     OF _ assms], goal_cases)
  case (1 f s h A r ret wt w y)
  show ?case
  proof (cases "fetch_body s h A r ret wt w")
    case (Return res w')
    with 1(2) have "fetch_passes (Suc 0) s h A r ret wt w = Return (fst y) (snd y)"
      by auto
    then show ?thesis ..
  next
    case (Again r' ret' wt' w')
    with 1 obtain n where "fetch_passes n s h A r' ret' wt' w' = Return (fst y) (snd y)"
      by force
    with Again have "fetch_passes (Suc n) s h A r ret wt w = Return (fst y) (snd y)"
      by simp
    then show ?thesis ..
  qed
qed

lemma fetch_event_request_events: "list_all fetch_event (request_events s r)"
  by (simp add: request_events_def)

lemma sends_request_events: "sends (request_events s r) = []"
  by (simp add: request_events_def)

lemma fetch_event_map_Send: "list_all fetch_event (map Send es)"
  by (induction es) auto

lemma upto_append: "a \<le> m + 1 \<Longrightarrow> m \<le> b \<Longrightarrow> [a..m] @ [m + 1..b] = [a..b]"
proof (cases "m + 1 \<le> b")
  case True
  assume "a \<le> m + 1"
  from upto_split1 [OF this True] show ?thesis by simp
next
  case False
  assume "m \<le> b"
  with False have "m = b" by simp
  then show ?thesis by simp
qed

lemma fetch_loop_total:
  assumes wf: "\<And>n a b es. a \<le> b \<Longrightarrow> GetEntries (logClient s) n a b = Inr es \<Longrightarrow>
      es \<noteq> [] \<and> int (length es) \<le> b - a + 1"
    and recover: "\<And>n a b. a \<le> b \<Longrightarrow> \<exists>k\<le>10. \<exists>es. GetEntries (logClient s) (n + k) a b = Inr es"
  shows "r_start r \<le> r_end r \<Longrightarrow> - (2 ^ 63) \<le> r_start r \<Longrightarrow> r_end r < 2 ^ 63 - 1 \<Longrightarrow>
     \<exists>w'. fetch_loop s h A r FETCH_RETRIES FETCH_RETRY_WAIT w = Some (None, w') \<and>
          (\<exists>new. events w' = events w @ new \<and> map Index (sends new) = [r_start r..r_end r] \<and>
             list_all fetch_event new)"
proof (induction "nat (r_end r - r_start r)" arbitrary: r w rule: less_induct)
  case less
  let ?a = "r_start r" and ?b = "r_end r" and ?n = "requests w"
  let ?G = "\<lambda>k. GetEntries (logClient s) (?n + k) ?a ?b"
  define k where "k = (LEAST k. \<exists>es. ?G k = Inr es)"
  from recover [OF less.prems(1), of ?n] obtain k0 where k0: "k0 \<le> 10" "\<exists>es. ?G k0 = Inr es"
    by blast
  have k_le: "k \<le> 10"
    unfolding k_def using Least_le [of "\<lambda>k. \<exists>es. ?G k = Inr es" k0] k0 by simp
  obtain es where es: "?G k = Inr es"
    unfolding k_def using LeastI [of "\<lambda>k. \<exists>es. ?G k = Inr es" k0] k0 by blast
  have before: "\<exists>e. ?G j = Inl e" if "j < k" for j
  proof (cases "?G j")
    case (Inl e)
    then show ?thesis by blast
  next
    case (Inr xs)
    with that show ?thesis
      unfolding k_def using not_less_Least [of j "\<lambda>k. \<exists>es. ?G k = Inr es"] by blast
  qed
  define errs where "errs = map (\<lambda>j. projl (?G j)) [0..<k]"
  have len_errs: "length errs = k" by (simp add: errs_def)
  have errs: "?G j = Inl (errs ! j)" if "j < length errs" for j
    using that before [of j] by (auto simp: errs_def)
  let ?w1 = "w\<lparr>requests := ?n + length errs,
      events := events w @ failed_attempts s r FETCH_RETRY_WAIT errs\<rparr>"
  have "fetch_passes (length errs) s h A r FETCH_RETRIES FETCH_RETRY_WAIT w =
      Again r (FETCH_RETRIES - int (length errs)) (FETCH_RETRY_WAIT * 2 ^ length errs) ?w1"
    using k_le by (intro fetch_passes_failures errs) (simp_all add: len_errs FETCH_RETRIES_def)
  then have loop1: "fetch_loop s h A r FETCH_RETRIES FETCH_RETRY_WAIT w =
      fetch_loop s h A r (FETCH_RETRIES - int (length errs)) (FETCH_RETRY_WAIT * 2 ^ length errs) ?w1"
    by (rule fetch_passes_Again)
  have ok: "GetEntries (logClient s) (requests ?w1) ?a ?b = Inr es"
    using es by (simp add: len_errs)
  from wf [OF less.prems(1) es] have es_ne: "es \<noteq> []" and es_len: "int (length es) \<le> ?b - ?a + 1"
    by auto
  let ?w2 = "?w1\<lparr>requests := Suc (requests ?w1), builder := feed h A es (builder ?w1),
      events := events ?w1 @ request_events s r @ map Send (stamp ?a es)\<rparr>"
  let ?new = "failed_attempts s r FETCH_RETRY_WAIT errs @ request_events s r @ map Send (stamp ?a es)"
  have body: "fetch_body s h A r (FETCH_RETRIES - int (length errs)) (FETCH_RETRY_WAIT * 2 ^ length errs) ?w1 =
     (if ?b < ?a + int (length es) then Return None ?w2
      else Again (r\<lparr>r_start := ?a + int (length es)\<rparr>) FETCH_RETRIES FETCH_RETRY_WAIT ?w2)"
    using less.prems es_len by (subst fetch_body_ok [OF ok]) (auto simp: Let_def)
  have ev2: "events ?w2 = events w @ ?new" by simp
  have new_sends: "sends ?new = stamp ?a es"
    by (simp add: sends_append sends_failed_attempts sends_request_events sends_map_Send)
  have new_ok: "list_all fetch_event ?new"
    by (simp add: fetch_event_failed_attempts fetch_event_request_events fetch_event_map_Send)
  show ?case
  proof (cases "?b < ?a + int (length es)")
    case True
    with es_len have "?a + int (length es) - 1 = ?b" by simp
    then have "map Index (sends ?new) = [?a..?b]"
      by (simp add: new_sends Index_stamp)
    moreover have "fetch_loop s h A r FETCH_RETRIES FETCH_RETRY_WAIT w = Some (None, ?w2)"
      unfolding loop1 by (subst fetch_loop.simps) (simp add: body True)
    ultimately show ?thesis
      using ev2 new_ok by blast
  next
    case False
    let ?r' = "r\<lparr>r_start := ?a + int (length es)\<rparr>"
    have loop2: "fetch_loop s h A r FETCH_RETRIES FETCH_RETRY_WAIT w =
        fetch_loop s h A ?r' FETCH_RETRIES FETCH_RETRY_WAIT ?w2"
      unfolding loop1 by (subst fetch_loop.simps) (simp add: body False)
    have "nat (r_end ?r' - r_start ?r') < nat (?b - ?a)"
      using False es_ne by (cases es) auto
    from less.hyps [OF this, of ?w2] False less.prems es_ne
    obtain w' new' where w': "fetch_loop s h A ?r' FETCH_RETRIES FETCH_RETRY_WAIT ?w2 = Some (None, w')"
      "events w' = events ?w2 @ new'" "map Index (sends new') = [?a + int (length es)..?b]"
      "list_all fetch_event new'"
      by auto
    have "map Index (sends (?new @ new')) = [?a..?a + int (length es) - 1] @ [?a + int (length es) - 1 + 1..?b]"
      by (simp add: sends_append sends_failed_attempts sends_request_events sends_map_Send
          Index_stamp w'(3))
    also have "\<dots> = [?a..?b]"
      using False by (intro upto_append) auto
    finally have "map Index (sends (?new @ new')) = [?a..?b]" .
    moreover have "events w' = events w @ ?new @ new'"
      using w'(2) by simp
    moreover have "list_all fetch_event (?new @ new')"
      using new_ok w'(4) by simp
    ultimately show ?thesis
      using w'(1) loop2 by metis
  qed
qed


lemma fetch_body_events:
  "fetch_body s h A r ret wt w = out \<Longrightarrow>
   (case out of
      Return res w' \<Rightarrow>
        \<exists>new. events w' = events w @ new \<and> list_all fetch_event new \<and>
          (\<forall>err. res = Some err \<longrightarrow> ends_with_failure s (requests w') err new)
    | Again r' ret' wt' w' \<Rightarrow>
        \<exists>new. events w' = events w @ new \<and> list_all fetch_event new)"
proof (cases "GetEntries (logClient s) (requests w) (r_start r) (r_end r)")
  case (Inl err)
  assume "fetch_body s h A r ret wt w = out"
  then show ?thesis
    unfolding fetch_body_fail [OF Inl]
    using Inl
    by (auto simp: ends_with_failure_def request_events_def split: if_splits)
next
  case (Inr es)
  assume *: "fetch_body s h A r ret wt w = out"
  let ?w2 = "emit (GetEntries_call (r_start r) (r_end r))
      (Log s (Fetching_entries (r_start r) (r_end r)) w\<lparr>requests := Suc (requests (Log s (Fetching_entries (r_start r) (r_end r)) w))\<rparr>)"
  obtain xs where xs: "events (snd (deliver h A es r ?w2)) = events ?w2 @ map Send xs"
    using deliver_events by blast
  have ev: "events ?w2 = events w @ request_events s r"
    by (simp add: emit_def Log_def request_events_def)
  have "list_all fetch_event (request_events s r @ map Send xs)"
    by (simp add: fetch_event_request_events fetch_event_map_Send)
  with xs ev have "\<exists>new. events (snd (deliver h A es r ?w2)) = events w @ new \<and> list_all fetch_event new"
    by (metis append.assoc)
  with * Inr show ?thesis
    by (auto simp: fetch_body_def Let_def split: prod.splits if_splits)
qed

lemma fetch_passes_events:
  "fetch_passes n s h A r ret wt w = Return res w' \<Longrightarrow>
   \<exists>new. events w' = events w @ new \<and> list_all fetch_event new \<and>
     (\<forall>err. res = Some err \<longrightarrow> ends_with_failure s (requests w') err new)"
proof (induction n arbitrary: r ret wt w)
  case 0
  then show ?case by simp
next
  case (Suc n)
  show ?case
  proof (cases "fetch_body s h A r ret wt w")
    case (Return res1 w1)
    with Suc.prems have "res1 = res" "w1 = w'" by auto
    with fetch_body_events [OF Return] show ?thesis by simp
  next
    case (Again r1 ret1 wt1 w1)
    from fetch_body_events [OF Again] obtain new1 where
      n1: "events w1 = events w @ new1" "list_all fetch_event new1"
      by auto
    from Again Suc.prems have "fetch_passes n s h A r1 ret1 wt1 w1 = Return res w'"
      by simp
    from Suc.IH [OF this] obtain new2 where
      n2: "events w' = events w1 @ new2" "list_all fetch_event new2"
        "\<forall>err. res = Some err \<longrightarrow> ends_with_failure s (requests w') err new2"
      by auto
    have "\<forall>err. res = Some err \<longrightarrow> ends_with_failure s (requests w') err (new1 @ new2)"
      using n2(3) unfolding ends_with_failure_def by (metis append.assoc)
    with n1 n2 show ?thesis
      by (intro exI [of _ "new1 @ new2"]) simp
  qed
qed

lemma fetch_events:
  assumes "fetch s h A r w = Some (res, w')"
  shows "\<exists>new. events w' = events w @ new \<and> list_all fetch_event new \<and>
     (\<forall>err. res = Some err \<longrightarrow> ends_with_failure s (requests w') err new)"
proof -
  from assms fetch_loop_passes [of s h A r FETCH_RETRIES FETCH_RETRY_WAIT w "(res, w')"]
  obtain n where "fetch_passes n s h A r FETCH_RETRIES FETCH_RETRY_WAIT w = Return res w'"
    by (auto simp: fetch_def)
  then show ?thesis by (rule fetch_passes_events)
qed

lemma Scan_loop_events:
  assumes "Scan_loop s h A endIndex start w = Some y"
  shows "\<exists>new. events (snd y) = events w @ new \<and> list_all fetch_event new \<and>
     (\<forall>err. fst y = Some err \<longrightarrow> ends_with_failure s (requests (snd y)) err new)"
proof (rule Scan_loop.raw_induct
    [where P = "\<lambda>s h A endIndex start w y.
       \<exists>new. events (snd y) = events w @ new \<and> list_all fetch_event new \<and>
         (\<forall>err. fst y = Some err \<longrightarrow> ends_with_failure s (requests (snd y)) err new)",
     OF _ assms], goal_cases)
  case (1 f s h A endIndex start w y)
  show ?case
  proof (cases "start < endIndex")
    case False
    with 1(2) show ?thesis by auto
  next
    case True
    let ?end = "wrap64 (min_int64 (wrap64 (start + BatchSize (opts s))) endIndex - 1)"
    from 1(2) True obtain res1 w1 where
      f1: "fetch s h A \<lparr>r_start = start, r_end = ?end\<rparr> w = Some (res1, w1)"
      and rest: "(case res1 of Some e \<Rightarrow> Some (Some e, w1)
                  | None \<Rightarrow> f s h A endIndex (wrap64 (?end + 1)) w1) = Some y"
      by (auto simp: Let_def bind_eq_Some_conv)
    from fetch_events [OF f1] obtain new1 where
      n1: "events w1 = events w @ new1" "list_all fetch_event new1"
        "\<forall>err. res1 = Some err \<longrightarrow> ends_with_failure s (requests w1) err new1"
      by auto
    show ?thesis
    proof (cases res1)
      case (Some e)
      with rest n1 show ?thesis by auto
    next
      case None
      with rest have "f s h A endIndex (wrap64 (?end + 1)) w1 = Some y" by simp
      from 1(1) [OF this] obtain new2 where
        n2: "events (snd y) = events w1 @ new2" "list_all fetch_event new2"
          "\<forall>err. fst y = Some err \<longrightarrow> ends_with_failure s (requests (snd y)) err new2"
        by auto
      have "\<forall>err. fst y = Some err \<longrightarrow> ends_with_failure s (requests (snd y)) err (new1 @ new2)"
        using n2(3) unfolding ends_with_failure_def by (metis append.assoc)
      with n1 n2 show ?thesis
        by (intro exI [of _ "new1 @ new2"]) simp
    qed
  qed
qed

lemma Scan_loop_total:
  assumes wf: "\<And>n a b es. a \<le> b \<Longrightarrow> GetEntries (logClient s) n a b = Inr es \<Longrightarrow>
      es \<noteq> [] \<and> int (length es) \<le> b - a + 1"
    and recover: "\<And>n a b. a \<le> b \<Longrightarrow> \<exists>k\<le>10. \<exists>es. GetEntries (logClient s) (n + k) a b = Inr es"
    and bs: "1 \<le> BatchSize (opts s)" "endIndex + BatchSize (opts s) < 2 ^ 63"
  shows "- (2 ^ 63) \<le> start \<Longrightarrow> start \<le> endIndex \<Longrightarrow>
     \<exists>w'. Scan_loop s h A endIndex start w = Some (None, w') \<and>
          (\<exists>new. events w' = events w @ new \<and> map Index (sends new) = [start..endIndex - 1] \<and>
             list_all fetch_event new)"
proof (induction "nat (endIndex - start)" arbitrary: start w rule: less_induct)
  case less
  show ?case
  proof (cases "start < endIndex")
    case False
    with less.prems have "start = endIndex" by simp
    then have "Scan_loop s h A endIndex start w = Some (None, w)"
      by (subst Scan_loop.simps) simp
    moreover have "map Index (sends []) = [start..endIndex - 1]"
      using \<open>start = endIndex\<close> by simp
    ultimately show ?thesis
      by (intro exI [of _ w] conjI exI [of _ "[]"]) simp_all
  next
    case True
    define e where "e = min_int64 (start + BatchSize (opts s)) endIndex - 1"
    have w1: "wrap64 (start + BatchSize (opts s)) = start + BatchSize (opts s)"
      using less.prems True bs by (intro wrap64_id) auto
    have e_bounds: "start \<le> e" "e \<le> endIndex - 1"
      using True bs by (auto simp: e_def min_int64_def)
    have w2: "wrap64 (min_int64 (start + BatchSize (opts s)) endIndex - 1) = e"
      unfolding e_def [symmetric] using e_bounds less.prems bs by (intro wrap64_id) auto
    have w3: "wrap64 (e + 1) = e + 1"
      using e_bounds less.prems bs by (intro wrap64_id) auto
    have "\<exists>w1. fetch_loop s h A \<lparr>r_start = start, r_end = e\<rparr> FETCH_RETRIES FETCH_RETRY_WAIT w = Some (None, w1) \<and>
          (\<exists>new. events w1 = events w @ new \<and>
             map Index (sends new) = [r_start \<lparr>r_start = start, r_end = e\<rparr>..r_end \<lparr>r_start = start, r_end = e\<rparr>] \<and>
             list_all fetch_event new)"
      using e_bounds less.prems bs by (intro fetch_loop_total wf recover) auto
    then obtain w1 new1 where f1: "fetch s h A \<lparr>r_start = start, r_end = e\<rparr> w = Some (None, w1)"
      and n1: "events w1 = events w @ new1" "map Index (sends new1) = [start..e]"
        "list_all fetch_event new1"
      by (auto simp: fetch_def)
    have unfold: "Scan_loop s h A endIndex start w = Scan_loop s h A endIndex (e + 1) w1"
      by (subst Scan_loop.simps) (simp add: True w1 w2 w3 f1 Let_def)
    have "nat (endIndex - (e + 1)) < nat (endIndex - start)"
      using e_bounds True by auto
    from less.hyps [OF this, of w1] e_bounds less.prems
    obtain w' new2 where l2: "Scan_loop s h A endIndex (e + 1) w1 = Some (None, w')"
      and n2: "events w' = events w1 @ new2" "map Index (sends new2) = [e + 1..endIndex - 1]"
        "list_all fetch_event new2"
      by auto
    have "map Index (sends (new1 @ new2)) = [start..e] @ [e + 1..endIndex - 1]"
      by (simp add: sends_append n1 n2)
    also have "\<dots> = [start..endIndex - 1]"
      using e_bounds by (intro upto_append) auto
    finally have "map Index (sends (new1 @ new2)) = [start..endIndex - 1]" .
    moreover have "events w' = events w @ new1 @ new2"
      using n1 n2 by simp
    moreover have "list_all fetch_event (new1 @ new2)"
      using n1 n2 by simp
    ultimately show ?thesis
      using unfold l2 by metis
  qed
qed

lemma Scan_events:
  assumes "Scan s h A startIndex endIndex w = Some (res, w')"
  shows "\<exists>new. list_all fetch_event new \<and>
     (case res of
        None \<Rightarrow> events w' = events w @ prologue s @ new @ epilogue s
      | Some err \<Rightarrow> events w' = events w @ prologue s @ new \<and>
          ends_with_failure s (requests w') err new)"
proof -
  let ?w3 = "(emit Reset_certsProcessed (Log s Starting_scan w))
      \<lparr>events := events (emit Reset_certsProcessed (Log s Starting_scan w))
         @ map Go_processerJob [0..NumWorkers (opts s) - 1]\<rparr>"
  have ev3: "events ?w3 = events w @ prologue s"
    by (simp add: prologue_def emit_def Log_def)
  from assms obtain res4 w4 where l: "Scan_loop s h A endIndex startIndex ?w3 = Some (res4, w4)"
    and r: "(case res4 of Some e \<Rightarrow> Some (Some e, w4)
       | None \<Rightarrow> Some (None, (if \<not> Quiet (opts s) then emit Print_Completed else id)
                     (emit WaitGroup_Wait (emit Close_jobs w4)))) = Some (res, w')"
    by (auto simp: Scan_def Let_def bind_eq_Some_conv)
  from Scan_loop_events [OF l] obtain new where
    n: "events w4 = events ?w3 @ new" "list_all fetch_event new"
      "\<forall>err. res4 = Some err \<longrightarrow> ends_with_failure s (requests w4) err new"
    by auto
  show ?thesis
  proof (cases res4)
    case None
    with r have "res = None" "events w' = events w4 @ epilogue s"
      by (auto simp: epilogue_def emit_def)
    with n ev3 show ?thesis
      by (intro exI [of _ new]) simp
  next
    case (Some e)
    with r have "res = Some e" "w' = w4" by auto
    with n ev3 Some show ?thesis
      by (intro exI [of _ new]) simp
  qed
qed

lemma Scan_total:
  assumes wf: "\<And>n a b es. a \<le> b \<Longrightarrow> GetEntries (logClient s) n a b = Inr es \<Longrightarrow>
      es \<noteq> [] \<and> int (length es) \<le> b - a + 1"
    and recover: "\<And>n a b. a \<le> b \<Longrightarrow> \<exists>k\<le>10. \<exists>es. GetEntries (logClient s) (n + k) a b = Inr es"
    and bs: "1 \<le> BatchSize (opts s)" "endIndex + BatchSize (opts s) < 2 ^ 63"
    and range: "- (2 ^ 63) \<le> startIndex" "startIndex \<le> endIndex"
  shows "\<exists>w' new. Scan s h A startIndex endIndex w = Some (None, w') \<and>
      events w' = events w @ prologue s @ new @ epilogue s \<and>
      map Index (sends new) = [startIndex..endIndex - 1] \<and> list_all fetch_event new"
proof -
  let ?w3 = "(emit Reset_certsProcessed (Log s Starting_scan w))
      \<lparr>events := events (emit Reset_certsProcessed (Log s Starting_scan w))
         @ map Go_processerJob [0..NumWorkers (opts s) - 1]\<rparr>"
  have ev3: "events ?w3 = events w @ prologue s"
    by (simp add: prologue_def emit_def Log_def)
  have "\<exists>w'. Scan_loop s h A endIndex startIndex ?w3 = Some (None, w') \<and>
          (\<exists>new. events w' = events ?w3 @ new \<and>
             map Index (sends new) = [startIndex..endIndex - 1] \<and> list_all fetch_event new)"
    by (intro Scan_loop_total wf recover bs range) auto
  then obtain w4 new where l: "Scan_loop s h A endIndex startIndex ?w3 = Some (None, w4)"
    and n: "events w4 = events ?w3 @ new" "map Index (sends new) = [startIndex..endIndex - 1]"
      "list_all fetch_event new"
    by blast
  let ?w' = "(if \<not> Quiet (opts s) then emit Print_Completed else id)
      (emit WaitGroup_Wait (emit Close_jobs w4))"
  have "Scan s h A startIndex endIndex w = Some (None, ?w')"
    by (simp add: Scan_def Let_def l)
  moreover have "events ?w' = events w @ prologue s @ new @ epilogue s"
    using n(1) ev3 by (simp add: epilogue_def emit_def)
  ultimately show ?thesis
    using n by blast
qed

section \<open>Properties of the worker pool\<close>

lemma sum_list_map_update:
  fixes f :: "'a \<Rightarrow> 'b::comm_monoid_add"
  shows "i < length ws \<Longrightarrow>
    sum_list (map f (ws[i := w'])) + f (ws ! i) = sum_list (map f ws) + f w'"
proof (induction ws arbitrary: i)
  case Nil
  then show ?case by simp
next
  case (Cons w ws)
  show ?case
  proof (cases i)
    case 0
    then show ?thesis by (simp add: ac_simps)
  next
    case (Suc j)
    with Cons.prems have "j < length ws" by simp
    from Cons.IH [OF this] Suc show ?thesis
      by (simp add: ac_simps)
  qed
qed

lemma alive_eq_0: "alive w = 0 \<longleftrightarrow> w = Exited"
  by (cases w) auto

lemma alive_zero_all_Exited:
  "sum_list (map alive ws) = 0 \<Longrightarrow> w \<in> set ws \<Longrightarrow> w = Exited"
  by (induction ws) (auto simp: alive_eq_0)

lemma all_Exited_held: "\<forall>w\<in>set ws. w = Exited \<Longrightarrow> sum_list (map held ws) = {#}"
  by (induction ws) auto

lemma all_Exited_counted: "\<forall>w\<in>set ws. w = Exited \<Longrightarrow> sum_list (map counted ws) = 0"
  by (induction ws) auto

lemma pool_inv_perform:
  assumes "pool_inv M s" and "main s = a # rest" and "\<not> blocked a s"
  shows "pool_inv M (perform a (s\<lparr>main := rest\<rparr>))"
proof (cases a)
  case (Send e)
  with assms show ?thesis by (auto simp: pool_inv_def)
next
  case Close_jobs
  with assms show ?thesis by (auto simp: pool_inv_def)
next
  case WaitGroup_Wait
  with assms show ?thesis by (auto simp: pool_inv_def)
next
  case Reset_certsProcessed
  with assms show ?thesis by (auto simp: pool_inv_def wrap64_def)
next
  case (Go_processerJob w)
  with assms show ?thesis by (auto simp: pool_inv_def)
qed (use assms in \<open>auto simp: pool_inv_def\<close>)

lemma pool_inv_main_step: "pool_inv M s \<Longrightarrow> pool_inv M (main_step s)"
  by (auto simp: main_step_def pool_inv_perform split: list.splits)

lemma Exited_update: "Exited \<in> set (ws[i := w']) \<Longrightarrow> w' \<noteq> Exited \<Longrightarrow> Exited \<in> set ws"
  using set_update_subset_insert [of ws i w'] by auto

lemma pool_inv_processerJob:
  assumes I: "pool_inv M s"
  shows "pool_inv M (processerJob i s)"
proof (cases "i < length (workers s)")
  case False
  with I show ?thesis by (simp add: processerJob_def)
next
  case True
  note upd = sum_list_map_update [OF True, of held] sum_list_map_update [OF True, of alive]
    sum_list_map_update [OF True, of counted]
  from True have ne: "workers s \<noteq> []" by auto
  from True have mem: "workers s ! i \<in> set (workers s)" by simp
  show ?thesis
  proof (cases "workers s ! i")
    case Receiving
    show ?thesis
    proof (cases "jobs s")
      case (Cons e rest)
      have step: "processerJob i s = s\<lparr>jobs := rest, workers := (workers s)[i := Received e]\<rparr>"
        using True Receiving Cons by (simp add: processerJob_def)
      from upd [of "Received e"] Receiving
      have "sum_list (map held ((workers s)[i := Received e])) = sum_list (map held (workers s)) + {#e#}"
        "sum_list (map alive ((workers s)[i := Received e])) = sum_list (map alive (workers s))"
        "sum_list (map counted ((workers s)[i := Received e])) = sum_list (map counted (workers s))"
        by auto
      moreover have "Exited \<notin> set ((workers s)[i := Received e])"
        using I Cons Exited_update [of "workers s" i "Received e"] by (auto simp: pool_inv_def)
      ultimately show ?thesis
        using I Cons ne unfolding step by (auto simp: pool_inv_def)
    next
      case Nil
      show ?thesis
      proof (cases "closed s")
        case False
        with True Receiving Nil I show ?thesis by (simp add: processerJob_def)
      next
        case closed: True
        have step: "processerJob i s =
            s\<lparr>workers := (workers s)[i := Exited], processorWG := processorWG s - 1\<rparr>"
          using True Receiving Nil closed by (simp add: processerJob_def)
        from upd [of Exited] Receiving
        have sums: "sum_list (map held ((workers s)[i := Exited])) = sum_list (map held (workers s))"
          "sum_list (map alive ((workers s)[i := Exited])) + 1 = sum_list (map alive (workers s))"
          "sum_list (map counted ((workers s)[i := Exited])) = sum_list (map counted (workers s))"
          by auto
        have "sum_list (map alive (workers s)) \<noteq> 0"
        proof
          assume "sum_list (map alive (workers s)) = 0"
          from alive_zero_all_Exited [OF this mem] Receiving show False by simp
        qed
        with I have "processorWG s \<noteq> 0"
          by (simp add: pool_inv_def)
        moreover have "processorWG s - 1 = int (sum_list (map alive ((workers s)[i := Exited])))"
          using I sums(2) by (auto simp: pool_inv_def)
        ultimately show ?thesis
          using I Nil closed ne sums(1,3) unfolding step by (auto simp: pool_inv_def)
      qed
    qed
  next
    case (Received e)
    have step: "processerJob i s =
        s\<lparr>certsProcessed := wrap64 (certsProcessed s + 1), workers := (workers s)[i := Calling e]\<rparr>"
      using True Received by (simp add: processerJob_def)
    from upd [of "Calling e"] Received
    have sums: "sum_list (map held ((workers s)[i := Calling e])) = sum_list (map held (workers s))"
      "sum_list (map alive ((workers s)[i := Calling e])) = sum_list (map alive (workers s))"
      "sum_list (map counted ((workers s)[i := Calling e])) = sum_list (map counted (workers s)) + 1"
      by auto
    have ex: "Exited \<in> set ((workers s)[i := Calling e]) \<Longrightarrow> Exited \<in> set (workers s)"
      using Exited_update [of "workers s" i "Calling e"] by simp
    have cnt: "wrap64 (wrap64 x + 1) = wrap64 (1 + x)" for x
      using wrap64_wrap64_Suc [of x] by (simp add: add.commute)
    show ?thesis
      using I ne ex unfolding step by (auto simp: pool_inv_def sums cnt)
  next
    case (Calling e)
    have step: "processerJob i s =
        s\<lparr>processed := processed s @ [e], workers := (workers s)[i := Receiving]\<rparr>"
      using True Calling by (simp add: processerJob_def)
    from upd [of Receiving] Calling
    have sums: "sum_list (map held ((workers s)[i := Receiving])) + {#e#} = sum_list (map held (workers s))"
      "sum_list (map alive ((workers s)[i := Receiving])) = sum_list (map alive (workers s))"
      "sum_list (map counted ((workers s)[i := Receiving])) + 1 = sum_list (map counted (workers s))"
      by auto
    have ex: "Exited \<in> set ((workers s)[i := Receiving]) \<Longrightarrow> Exited \<in> set (workers s)"
      using Exited_update [of "workers s" i Receiving] by simp
    have a: "mset (sends (main s)) + mset (jobs s) + sum_list (map held ((workers s)[i := Receiving]))
        + mset (processed s @ [e]) = M"
      using I sums(1) by (auto simp: pool_inv_def ac_simps)
    have c: "length (processed s @ [e]) + sum_list (map counted ((workers s)[i := Receiving])) =
        length (processed s) + sum_list (map counted (workers s))"
      using sums(3) by simp
    show ?thesis
      using I ne ex a c unfolding step by (auto simp: pool_inv_def sums(2) simp del: mset_append length_append)
  next
    case Exited
    with True I show ?thesis by (simp add: processerJob_def)
  qed
qed

lemma pool_inv_run: "pool_inv M s \<Longrightarrow> pool_inv M (run gs s)"
proof (induction gs arbitrary: s)
  case Nil
  then show ?case by simp
next
  case (Cons g gs)
  then show ?case
    by (cases g) (simp_all add: pool_inv_main_step pool_inv_processerJob)
qed

lemma pool_inv_returned:
  assumes "pool_inv M s" and "main s = []"
  shows "mset (processed s) = M \<and> certsProcessed s = wrap64 (int (size M)) \<and>
    jobs s = [] \<and> (\<forall>w\<in>set (workers s). w = Exited)"
proof -
  from assms have wg: "processorWG s = 0" and ne: "workers s \<noteq> []"
    by (auto simp: pool_inv_def)
  from assms wg have "sum_list (map alive (workers s)) = 0"
    by (simp add: pool_inv_def)
  then have all: "\<forall>w\<in>set (workers s). w = Exited"
    using alive_zero_all_Exited [of "workers s"] by blast
  with ne have "Exited \<in> set (workers s)"
    by (cases "workers s") auto
  with assms have "jobs s = []" by (auto simp: pool_inv_def)
  with assms all show ?thesis
    by (auto simp: pool_inv_def all_Exited_held all_Exited_counted)
qed

lemma no_later_append:
  "no_later X Y (as @ bs) \<longleftrightarrow>
     no_later X Y as \<and> no_later X Y bs \<and> ((\<exists>y\<in>set as. Y y) \<longrightarrow> (\<forall>x\<in>set bs. \<not> X x))"
  by (induction as) auto

lemma no_later_none: "\<forall>y\<in>set as. \<not> Y y \<Longrightarrow> no_later X Y as"
  by (induction as) auto

lemma no_later_free: "\<forall>x\<in>set as. \<not> X x \<Longrightarrow> no_later X Y as"
  by (induction as) auto

lemma fetch_event_not_control:
  "fetch_event e \<Longrightarrow>
   \<not> is_spawn e \<and> e \<noteq> Reset_certsProcessed \<and> e \<noteq> WaitGroup_Wait \<and> e \<noteq> Close_jobs \<and>
   e \<noteq> Print_Completed"
  by (cases e) auto

lemma sends_prologue: "sends (prologue s) = []"
proof -
  have "sends (map Go_processerJob ws) = []" for ws
    by (induction ws) auto
  then show ?thesis
    by (simp add: prologue_def sends_append)
qed

lemma sends_epilogue: "sends (epilogue s) = []"
  by (simp add: epilogue_def)

lemma sends_Scan_trace: "sends (prologue s @ new @ epilogue s) = sends new"
  by (simp add: sends_append sends_prologue sends_epilogue)

lemma pool_inv_start:
  assumes new: "list_all fetch_event new" and nw: "1 \<le> NumWorkers (opts s)"
  shows "pool_inv (mset (sends new)) (start_system c (prologue s @ new @ epilogue s))"
proof -
  let ?A = "prologue s @ new @ epilogue s"
  from new have ctl: "\<forall>e\<in>set new. \<not> is_spawn e \<and> e \<noteq> Reset_certsProcessed \<and> e \<noteq> WaitGroup_Wait"
    using fetch_event_not_control by (auto simp: list_all_iff)
  have "(0::int) \<in> set [0..NumWorkers (opts s) - 1]"
    using nw by simp
  then have spawn: "\<exists>e\<in>set ?A. is_spawn e"
    by (auto simp: prologue_def intro!: bexI [of _ "Go_processerJob 0"])
  have reset: "Reset_certsProcessed \<in> set ?A"
    by (simp add: prologue_def)
  have wait: "WaitGroup_Wait \<in> set ?A"
    by (simp add: epilogue_def)
  have pro1: "no_later (\<lambda>e. e = Reset_certsProcessed) is_spawn (prologue s)"
    by (auto simp: prologue_def no_later_append intro!: no_later_free)
  have epi1: "no_later (\<lambda>e. e = Reset_certsProcessed) is_spawn (epilogue s)"
    by (auto simp: epilogue_def)
  have new1: "no_later (\<lambda>e. e = Reset_certsProcessed) is_spawn new"
    using ctl by (intro no_later_none) auto
  have o1: "no_later (\<lambda>e. e = Reset_certsProcessed) is_spawn ?A"
    using pro1 epi1 new1 ctl by (auto simp: no_later_append epilogue_def)
  have pro2: "no_later is_spawn (\<lambda>e. e = WaitGroup_Wait) (prologue s)"
    by (intro no_later_none) (auto simp: prologue_def)
  have new2: "no_later is_spawn (\<lambda>e. e = WaitGroup_Wait) new"
    using ctl by (intro no_later_none) auto
  have epi2: "no_later is_spawn (\<lambda>e. e = WaitGroup_Wait) (epilogue s)"
    by (auto simp: epilogue_def)
  have o2: "no_later is_spawn (\<lambda>e. e = WaitGroup_Wait) ?A"
    using pro2 new2 epi2 ctl by (auto simp: no_later_append prologue_def)
  show ?thesis
    unfolding pool_inv_def start_system_def
    using spawn reset wait o1 o2 by (simp add: sends_Scan_trace)
qed

text \<open>
  When \<open>Scan\<close> has returned along its success path, every entry it sent has been
  through a callback that returned, the counter has been incremented once for each,
  and every worker has exited.
\<close>

lemma pool_returned:
  assumes "list_all fetch_event new" and "1 \<le> NumWorkers (opts s)"
    and "main (run gs (start_system c (prologue s @ new @ epilogue s))) = []"
  shows "mset (processed (run gs (start_system c (prologue s @ new @ epilogue s)))) = mset (sends new) \<and>
    certsProcessed (run gs (start_system c (prologue s @ new @ epilogue s)))
      = wrap64 (int (length (sends new))) \<and>
    jobs (run gs (start_system c (prologue s @ new @ epilogue s))) = [] \<and>
    (\<forall>w\<in>set (workers (run gs (start_system c (prologue s @ new @ epilogue s)))). w = Exited)"
proof -
  have "pool_inv (mset (sends new)) (run gs (start_system c (prologue s @ new @ epilogue s)))"
    using assms(1,2) by (intro pool_inv_run pool_inv_start)
  from pool_inv_returned [OF this assms(3)] show ?thesis by simp
qed

text \<open>The counter at any moment after the reset.\<close>

lemma pool_counter:
  assumes "list_all fetch_event new" and "1 \<le> NumWorkers (opts s)"
    and "Reset_certsProcessed \<notin> set (main (run gs (start_system c (prologue s @ new @ epilogue s))))"
  shows "certsProcessed (run gs (start_system c (prologue s @ new @ epilogue s))) =
    wrap64 (int (length (processed (run gs (start_system c (prologue s @ new @ epilogue s))))
      + sum_list (map counted (workers (run gs (start_system c (prologue s @ new @ epilogue s)))))))"
proof -
  have "pool_inv (mset (sends new)) (run gs (start_system c (prologue s @ new @ epilogue s)))"
    using assms(1,2) by (intro pool_inv_run pool_inv_start)
  with assms(3) show ?thesis by (simp add: pool_inv_def)
qed

text \<open>Without \<open>close(jobs)\<close> in what the caller does, no worker ever leaves its loop.\<close>

lemma never_closed_step:
  assumes "Close_jobs \<notin> set (main s)" and "\<not> closed s" and "Exited \<notin> set (workers s)"
  shows "Close_jobs \<notin> set (main (step g s)) \<and> \<not> closed (step g s) \<and>
    Exited \<notin> set (workers (step g s))"
proof (cases g)
  case Main
  show ?thesis
  proof (cases "main s")
    case Nil
    with assms Main show ?thesis by (simp add: main_step_def)
  next
    case (Cons a rest)
    with assms have "a \<noteq> Close_jobs" by auto
    with assms Cons Main show ?thesis
      by (cases a) (auto simp: main_step_def)
  qed
next
  case (Worker i)
  have "Exited \<notin> set ((workers s)[i := w'])" if "w' \<noteq> Exited" for w'
    using assms(3) that Exited_update [of "workers s" i w'] by blast
  with assms Worker show ?thesis
    by (auto simp: processerJob_def split: worker.splits list.splits)
qed

lemma never_closed:
  "Close_jobs \<notin> set (main s) \<Longrightarrow> \<not> closed s \<Longrightarrow> Exited \<notin> set (workers s) \<Longrightarrow>
   \<not> closed (run gs s) \<and> Exited \<notin> set (workers (run gs s))"
proof (induction gs arbitrary: s)
  case Nil
  then show ?case by simp
next
  case (Cons g gs)
  from never_closed_step [OF Cons.prems, of g] Cons.IH [of "step g s"]
  show ?case by simp
qed

text \<open>A log that answers with no entries keeps \<open>fetch\<close> in its loop.\<close>

lemma fetch_body_empty:
  assumes "GetEntries (logClient s) (requests w) (r_start r) (r_end r) = Inr []"
    and "r_start r \<le> r_end r"
  shows "fetch_body s h A r ret wt w =
    Again r FETCH_RETRIES FETCH_RETRY_WAIT
      (w\<lparr>requests := Suc (requests w), events := events w @ request_events s r\<rparr>)"
  using assms
  by (simp add: fetch_body_def Let_def Log_def emit_def request_events_def)

lemma fetch_passes_empty:
  assumes "\<And>n. requests w \<le> n \<Longrightarrow> GetEntries (logClient s) n (r_start r) (r_end r) = Inr []"
    and "r_start r \<le> r_end r"
  shows "fetch_passes (Suc k) s h A r ret wt w =
    Again r FETCH_RETRIES FETCH_RETRY_WAIT
      (w\<lparr>requests := requests w + Suc k,
         events := events w @ concat (replicate (Suc k) (request_events s r))\<rparr>)"
  using assms(1)
proof (induction k arbitrary: ret wt w)
  case 0
  have "GetEntries (logClient s) (requests w) (r_start r) (r_end r) = Inr []"
    using 0 by simp
  then show ?case by (simp add: fetch_body_empty [OF _ assms(2)])
next
  case (Suc k)
  have "GetEntries (logClient s) (requests w) (r_start r) (r_end r) = Inr []"
    using Suc.prems by simp
  note body = fetch_body_empty [OF this assms(2), of h A ret wt]
  let ?w1 = "w\<lparr>requests := Suc (requests w), events := events w @ request_events s r\<rparr>"
  have "fetch_passes (Suc k) s h A r FETCH_RETRIES FETCH_RETRY_WAIT ?w1 =
    Again r FETCH_RETRIES FETCH_RETRY_WAIT
      (?w1\<lparr>requests := requests ?w1 + Suc k,
           events := events ?w1 @ concat (replicate (Suc k) (request_events s r))\<rparr>)"
    using Suc.prems by (intro Suc.IH) simp
  then have "fetch_passes (Suc (Suc k)) s h A r ret wt w =
    Again r FETCH_RETRIES FETCH_RETRY_WAIT
      (?w1\<lparr>requests := requests ?w1 + Suc k,
           events := events ?w1 @ concat (replicate (Suc k) (request_events s r))\<rparr>)"
    by (subst fetch_passes.simps) (simp only: body outcome.case)
  then show ?case by simp
qed

lemma fetch_loop_diverges:
  assumes "\<And>n. requests w \<le> n \<Longrightarrow> GetEntries (logClient s) n (r_start r) (r_end r) = Inr []"
    and "r_start r \<le> r_end r"
  shows "fetch_loop s h A r ret wt w = None"
proof (rule ccontr)
  assume "fetch_loop s h A r ret wt w \<noteq> None"
  then obtain y where "fetch_loop s h A r ret wt w = Some y" by auto
  from fetch_loop_passes [OF this] obtain n where
    n: "fetch_passes n s h A r ret wt w = Return (fst y) (snd y)" by blast
  show False
  proof (cases n)
    case 0
    with n show False by simp
  next
    case (Suc k)
    with n fetch_passes_empty [OF assms, where k = k and h = h and A = A and ret = ret and wt = wt]
    show False by simp
  qed
qed

lemma run_append: "run (gs @ hs) s = run hs (run gs s)"
  by (induction gs arbitrary: s) auto

lemma spawn_all:
  "main s = map Go_processerJob ids @ rest \<Longrightarrow>
   run (replicate (length ids) Main) s =
     s\<lparr>main := rest, processorWG := processorWG s + int (length ids),
       workers := workers s @ replicate (length ids) Receiving\<rparr>"
proof (induction ids arbitrary: s)
  case Nil
  then show ?case by simp
next
  case (Cons i ids)
  let ?s1 = "perform (Go_processerJob i) (s\<lparr>main := map Go_processerJob ids @ rest\<rparr>)"
  have "run (replicate (length (i # ids)) Main) s = run (replicate (length ids) Main) ?s1"
    using Cons.prems by (simp add: main_step_def)
  also have "\<dots> = ?s1\<lparr>main := rest, processorWG := processorWG ?s1 + int (length ids),
       workers := workers ?s1 @ replicate (length ids) Receiving\<rparr>"
    by (rule Cons.IH) simp
  finally show ?case
    by (simp add: replicate_app_Cons_same)
qed

lemma idle_after_prologue:
  "idle (nat (NumWorkers (opts s))) rest
     (run (replicate (length (prologue s)) Main) (start_system c (prologue s @ rest)))"
proof -
  let ?ids = "[0..NumWorkers (opts s) - 1]"
  have len: "length ?ids = nat (NumWorkers (opts s))" by simp
  let ?s0 = "\<lambda>con. \<lparr>main = map Go_processerJob ?ids @ rest, jobs = [], closed = False,
      processorWG = 0, workers = [], certsProcessed = 0, processed = [], console = con\<rparr>"
  have spawned: "idle (nat (NumWorkers (opts s))) rest (run (replicate (length ?ids) Main) (?s0 con))"
    for con
    by (subst spawn_all [where rest = rest]) (simp_all add: idle_def)
  show ?thesis
  proof (cases "Quiet (opts s)")
    case True
    then have "run (replicate (length (prologue s)) Main) (start_system c (prologue s @ rest))
        = run (replicate (length ?ids) Main) (?s0 [])"
      by (simp add: prologue_def start_system_def main_step_def del: length_upto)
    with spawned [of "[]"] show ?thesis by simp
  next
    case False
    then have "run (replicate (length (prologue s)) Main) (start_system c (prologue s @ rest))
        = run (replicate (length ?ids) Main) (?s0 [Starting_scan])"
      by (simp add: prologue_def start_system_def main_step_def del: length_upto)
    with spawned [of "[Starting_scan]"] show ?thesis by simp
  qed
qed

lemma idle_round:
  assumes "idle n (e # rest) s" and "fetch_event e" and "0 < n"
  shows "idle n rest (run [Main, Worker 0, Worker 0, Worker 0] s)"
proof -
  from assms(3) obtain m where n: "n = Suc m" by (cases n) auto
  from assms(1) have s: "main s = e # rest" "jobs s = []" "\<not> closed s"
    "processorWG s = int n" "workers s = Receiving # replicate m Receiving"
    by (simp_all add: idle_def n)
  from assms(2) show ?thesis
  proof (cases e)
    case (Send x)
    with s show ?thesis
      by (simp add: idle_def n main_step_def processerJob_def)
  next
    case (Print msg)
    with s show ?thesis
      by (simp add: idle_def n main_step_def processerJob_def)
  next
    case (GetEntries_call a b)
    with s show ?thesis
      by (simp add: idle_def n main_step_def processerJob_def)
  next
    case (Sleep d)
    with s show ?thesis
      by (simp add: idle_def n main_step_def processerJob_def)
  qed simp_all
qed

lemma idle_after_fetches:
  "list_all fetch_event new \<Longrightarrow> idle n (new @ rest) s \<Longrightarrow> 0 < n \<Longrightarrow>
   idle n rest (run (concat (map (\<lambda>e. [Main, Worker 0, Worker 0, Worker 0]) new)) s)"
proof (induction new arbitrary: s)
  case Nil
  then show ?case by simp
next
  case (Cons e new)
  from Cons.prems have "idle n (new @ rest) (run [Main, Worker 0, Worker 0, Worker 0] s)"
    by (intro idle_round) auto
  from Cons.IH [OF _ this] Cons.prems
  have "idle n rest (run (concat (map (\<lambda>e. [Main, Worker 0, Worker 0, Worker 0]) new))
      (run [Main, Worker 0, Worker 0, Worker 0] s))"
    by simp
  then show ?case
    by (simp only: list.map concat.simps run_append)
qed

lemma exit_all:
  "jobs s = [] \<Longrightarrow> closed s \<Longrightarrow> workers s = replicate k Exited @ replicate m Receiving \<Longrightarrow>
   run (map Worker [k..<k + m]) s =
     s\<lparr>workers := replicate (k + m) Exited, processorWG := processorWG s - int m\<rparr>"
proof (induction m arbitrary: k s)
  case 0
  then show ?case by simp
next
  case (Suc m)
  let ?s1 = "s\<lparr>workers := replicate (Suc k) Exited @ replicate m Receiving,
      processorWG := processorWG s - 1\<rparr>"
  have nth: "workers s ! k = Receiving"
    using Suc.prems(3) by (simp add: nth_append)
  have upd: "(workers s)[k := Exited] = replicate (Suc k) Exited @ replicate m Receiving"
    using Suc.prems(3) by (simp add: list_update_append replicate_append_same)
  have step1: "processerJob k s = ?s1"
    using Suc.prems nth upd by (simp add: processerJob_def)
  have "[k..<k + Suc m] = k # [Suc k..<Suc k + m]"
    by (simp add: upt_rec)
  then have "run (map Worker [k..<k + Suc m]) s = run (map Worker [Suc k..<Suc k + m]) ?s1"
    by (simp add: step1)
  also have "\<dots> = ?s1\<lparr>workers := replicate (Suc k + m) Exited,
      processorWG := processorWG ?s1 - int m\<rparr>"
    using Suc.prems by (intro Suc.IH) simp_all
  finally show ?case by simp
qed

text \<open>Under the patient scheduler \<open>Scan\<close> returns.\<close>

lemma Scan_can_return:
  assumes new: "list_all fetch_event new" and nw: "1 \<le> NumWorkers (opts s)"
  shows "main (run (patient_schedule s new) (start_system c (prologue s @ new @ epilogue s))) = []"
proof -
  let ?n = "nat (NumWorkers (opts s))"
  let ?tail = "(if Quiet (opts s) then [] else [Print_Completed])"
  have n: "0 < ?n" using nw by simp
  let ?s1 = "run (replicate (length (prologue s)) Main)
      (start_system c (prologue s @ new @ epilogue s))"
  have i1: "idle ?n (new @ epilogue s) ?s1"
    by (rule idle_after_prologue)
  let ?s2 = "run (concat (map (\<lambda>e. [Main, Worker 0, Worker 0, Worker 0]) new)) ?s1"
  have i2: "idle ?n (epilogue s) ?s2"
    using new i1 n by (rule idle_after_fetches)
  let ?s3 = "?s2\<lparr>main := WaitGroup_Wait # ?tail, closed := True\<rparr>"
  have s3: "run [Main] ?s2 = ?s3"
    using i2 by (simp add: idle_def epilogue_def main_step_def)
  have "run (map Worker [0..<0 + ?n]) ?s3 =
      ?s3\<lparr>workers := replicate (0 + ?n) Exited, processorWG := processorWG ?s3 - int ?n\<rparr>"
    using i2 by (intro exit_all) (simp_all add: idle_def)
  then have s4: "run (map Worker [0..<?n]) ?s3 =
      ?s3\<lparr>workers := replicate ?n Exited, processorWG := 0\<rparr>"
    using i2 by (simp add: idle_def)
  have "main (run [Main, Main] (?s3\<lparr>workers := replicate ?n Exited, processorWG := 0\<rparr>)) = []"
    by (simp add: main_step_def)
  then show ?thesis
    unfolding patient_schedule_def run_append s3 s4 .
qed

text \<open>
  What a fetch that returns \<open>nil\<close> has sent, whatever failed on the way, when no
  response holds more entries than requested.
\<close>

lemma fetch_passes_partial:
  assumes bound: "\<And>n a b es. a \<le> b \<Longrightarrow> GetEntries (logClient s) n a b = Inr es \<Longrightarrow>
      int (length es) \<le> b - a + 1"
  shows "fetch_passes n s h A r ret wt w = Return None w' \<Longrightarrow>
     r_start r \<le> r_end r \<Longrightarrow> - (2 ^ 63) \<le> r_start r \<Longrightarrow> r_end r < 2 ^ 63 - 1 \<Longrightarrow>
     \<exists>new. events w' = events w @ new \<and> map Index (sends new) = [r_start r..r_end r] \<and>
       list_all fetch_event new"
proof (induction n arbitrary: r ret wt w)
  case 0
  then show ?case by simp
next
  case (Suc n)
  let ?a = "r_start r" and ?b = "r_end r"
  show ?case
  proof (cases "GetEntries (logClient s) (requests w) ?a ?b")
    case (Inl err)
    let ?w1 = "w\<lparr>requests := Suc (requests w), events := events w @ failed_attempts s r wt [err]\<rparr>"
    from Suc.prems(1) have "ret \<noteq> 0"
      by (auto simp: fetch_body_fail [OF Inl] split: if_splits)
    with Suc.prems(1) have "fetch_passes n s h A r (ret - 1) (wt * 2) ?w1 = Return None w'"
      by (simp add: fetch_body_fail [OF Inl])
    from Suc.IH [OF this Suc.prems(2-4)] obtain new where
      "events w' = events ?w1 @ new" "map Index (sends new) = [?a..?b]" "list_all fetch_event new"
      by blast
    then show ?thesis
      by (intro exI [of _ "failed_attempts s r wt [err] @ new"])
        (simp add: sends_append request_events_def)
  next
    case (Inr es)
    from bound [OF Suc.prems(2) Inr] have len: "int (length es) \<le> ?b - ?a + 1" .
    with Suc.prems have hi: "?a + int (length es) < 2 ^ 63" by simp
    let ?w2 = "w\<lparr>requests := Suc (requests w), builder := feed h A es (builder w),
        events := events w @ request_events s r @ map Send (stamp ?a es)\<rparr>"
    let ?new = "request_events s r @ map Send (stamp ?a es)"
    note body = fetch_body_ok [OF Inr Suc.prems(3) hi, of h A ret wt]
    have new_sends: "map Index (sends ?new) = [?a..?a + int (length es) - 1]"
      by (simp add: sends_append sends_request_events sends_map_Send Index_stamp)
    have new_ok: "list_all fetch_event ?new"
      by (simp add: fetch_event_request_events fetch_event_map_Send)
    show ?thesis
    proof (cases "?b < ?a + int (length es)")
      case True
      with Suc.prems(1) body have "w' = ?w2" by (simp add: Let_def)
      moreover from True len have "?a + int (length es) - 1 = ?b" by simp
      ultimately show ?thesis
        using new_sends new_ok by (intro exI [of _ ?new]) simp
    next
      case False
      let ?r' = "r\<lparr>r_start := ?a + int (length es)\<rparr>"
      from False Suc.prems(1) body
      have "fetch_passes n s h A ?r' FETCH_RETRIES FETCH_RETRY_WAIT ?w2 = Return None w'"
        by (simp add: Let_def)
      from Suc.IH [OF this] False Suc.prems obtain new where
        n: "events w' = events ?w2 @ new" "map Index (sends new) = [?a + int (length es)..?b]"
          "list_all fetch_event new"
        by auto
      have "map Index (sends (?new @ new)) =
          [?a..?a + int (length es) - 1] @ [?a + int (length es) - 1 + 1..?b]"
        using new_sends n(2) by (simp add: sends_append)
      also have "\<dots> = [?a..?b]"
        using False by (intro upto_append) auto
      finally have "map Index (sends (?new @ new)) = [?a..?b]" .
      with n new_ok show ?thesis
        by (intro exI [of _ "?new @ new"]) simp
    qed
  qed
qed

lemma Scan_loop_partial:
  assumes bound: "\<And>n a b es. a \<le> b \<Longrightarrow> GetEntries (logClient s) n a b = Inr es \<Longrightarrow>
      int (length es) \<le> b - a + 1"
    and bs: "1 \<le> BatchSize (opts s)" "endIndex + BatchSize (opts s) < 2 ^ 63"
  shows "Scan_loop s h A endIndex start w = Some (None, w') \<Longrightarrow>
     - (2 ^ 63) \<le> start \<Longrightarrow> start \<le> endIndex \<Longrightarrow>
     \<exists>new. events w' = events w @ new \<and> map Index (sends new) = [start..endIndex - 1] \<and>
       list_all fetch_event new"
proof (induction "nat (endIndex - start)" arbitrary: start w rule: less_induct)
  case less
  show ?case
  proof (cases "start < endIndex")
    case False
    with less.prems have "start = endIndex" by simp
    moreover from less.prems(1) False have "w' = w"
      by (subst (asm) Scan_loop.simps) simp
    ultimately show ?thesis
      by (intro exI [of _ "[]"]) simp
  next
    case True
    define e where "e = min_int64 (start + BatchSize (opts s)) endIndex - 1"
    have w1: "wrap64 (start + BatchSize (opts s)) = start + BatchSize (opts s)"
      using less.prems True bs by (intro wrap64_id) auto
    have e_bounds: "start \<le> e" "e \<le> endIndex - 1"
      using True bs by (auto simp: e_def min_int64_def)
    have w2: "wrap64 (min_int64 (start + BatchSize (opts s)) endIndex - 1) = e"
      unfolding e_def [symmetric] using e_bounds less.prems bs by (intro wrap64_id) auto
    have w3: "wrap64 (e + 1) = e + 1"
      using e_bounds less.prems bs by (intro wrap64_id) auto
    have unfold: "Scan_loop s h A endIndex start w =
        Option.bind (fetch s h A \<lparr>r_start = start, r_end = e\<rparr> w)
          (\<lambda>(err, w1). case err of Some err \<Rightarrow> Some (Some err, w1)
             | None \<Rightarrow> Scan_loop s h A endIndex (wrap64 (e + 1)) w1)"
      by (subst Scan_loop.simps) (simp add: True w1 w2 Let_def)
    from less.prems(1) obtain res1 w1 where
      f1: "fetch s h A \<lparr>r_start = start, r_end = e\<rparr> w = Some (res1, w1)"
      and rest: "(case res1 of Some err \<Rightarrow> Some (Some err, w1)
                  | None \<Rightarrow> Scan_loop s h A endIndex (e + 1) w1) = Some (None, w')"
      unfolding unfold w3 by (auto simp: bind_eq_Some_conv)
    from rest have none: "res1 = None" and l2: "Scan_loop s h A endIndex (e + 1) w1 = Some (None, w')"
      by (auto split: option.splits)
    from f1 none fetch_loop_passes [of s h A "\<lparr>r_start = start, r_end = e\<rparr>"
        FETCH_RETRIES FETCH_RETRY_WAIT w "(None, w1)"]
    obtain n where "fetch_passes n s h A \<lparr>r_start = start, r_end = e\<rparr>
        FETCH_RETRIES FETCH_RETRY_WAIT w = Return None w1"
      by (auto simp: fetch_def)
    then have "\<exists>new. events w1 = events w @ new \<and>
        map Index (sends new) = [r_start \<lparr>r_start = start, r_end = e\<rparr>..r_end \<lparr>r_start = start, r_end = e\<rparr>] \<and>
        list_all fetch_event new"
      using e_bounds less.prems bs by (intro fetch_passes_partial [where s = s] bound) auto
    then obtain new1 where n1: "events w1 = events w @ new1" "map Index (sends new1) = [start..e]"
      "list_all fetch_event new1"
      by auto
    have "nat (endIndex - (e + 1)) < nat (endIndex - start)"
      using e_bounds True by auto
    from less.hyps [OF this l2] e_bounds less.prems
    obtain new2 where n2: "events w' = events w1 @ new2"
      "map Index (sends new2) = [e + 1..endIndex - 1]" "list_all fetch_event new2"
      by auto
    have "map Index (sends (new1 @ new2)) = [start..e] @ [e + 1..endIndex - 1]"
      by (simp add: sends_append n1 n2)
    also have "\<dots> = [start..endIndex - 1]"
      using e_bounds by (intro upto_append) auto
    finally have "map Index (sends (new1 @ new2)) = [start..endIndex - 1]" .
    with n1 n2 show ?thesis
      by (intro exI [of _ "new1 @ new2"]) simp
  qed
qed

lemma Scan_partial:
  assumes bound: "\<And>n a b es. a \<le> b \<Longrightarrow> GetEntries (logClient s) n a b = Inr es \<Longrightarrow>
      int (length es) \<le> b - a + 1"
    and bs: "1 \<le> BatchSize (opts s)" "endIndex + BatchSize (opts s) < 2 ^ 63"
    and range: "- (2 ^ 63) \<le> startIndex" "startIndex \<le> endIndex"
    and scan: "Scan s h A startIndex endIndex w = Some (None, w')"
  shows "\<exists>new. events w' = events w @ prologue s @ new @ epilogue s \<and>
      map Index (sends new) = [startIndex..endIndex - 1] \<and> list_all fetch_event new"
proof -
  let ?w3 = "(emit Reset_certsProcessed (Log s Starting_scan w))
      \<lparr>events := events (emit Reset_certsProcessed (Log s Starting_scan w))
         @ map Go_processerJob [0..NumWorkers (opts s) - 1]\<rparr>"
  have ev3: "events ?w3 = events w @ prologue s"
    by (simp add: prologue_def emit_def Log_def)
  from scan obtain res4 w4 where l: "Scan_loop s h A endIndex startIndex ?w3 = Some (res4, w4)"
    and r: "(case res4 of Some e \<Rightarrow> Some (Some e, w4)
       | None \<Rightarrow> Some (None, (if \<not> Quiet (opts s) then emit Print_Completed else id)
                     (emit WaitGroup_Wait (emit Close_jobs w4)))) = Some (None, w')"
    by (auto simp: Scan_def Let_def bind_eq_Some_conv)
  from r have none: "res4 = None" and w': "events w' = events w4 @ epilogue s"
    by (auto simp: epilogue_def emit_def split: option.splits)
  from l none have "Scan_loop s h A endIndex startIndex ?w3 = Some (None, w4)" by simp
  then have "\<exists>new. events w4 = events ?w3 @ new \<and>
      map Index (sends new) = [startIndex..endIndex - 1] \<and> list_all fetch_event new"
    using bs range by (intro Scan_loop_partial [where s = s] bound) auto
  then obtain new where
    "events w4 = events ?w3 @ new" "map Index (sends new) = [startIndex..endIndex - 1]"
    "list_all fetch_event new"
    by auto
  with w' ev3 show ?thesis
    by (intro exI [of _ new]) simp
qed

text \<open>
  The loop of \<open>fetch\<close> is its first \<open>n\<close> passes followed by the rest of the loop,
  whether or not it returns.
\<close>

lemma fetch_loop_unroll:
  "fetch_loop s h A r ret wt w =
     (case fetch_passes n s h A r ret wt w of
        Return err w' \<Rightarrow> Some (err, w')
      | Again r' ret' wt' w' \<Rightarrow> fetch_loop s h A r' ret' wt' w')"
proof (cases "fetch_passes n s h A r ret wt w")
  case (Return err w')
  from fetch_passes_Return [OF this] Return show ?thesis by simp
next
  case (Again r' ret' wt' w')
  from fetch_passes_Again [OF this] Again show ?thesis by simp
qed





text \<open>
  The batch loop of \<open>Scan\<close> goes on from where its first batches have left it.
\<close>

lemma batches_Scan_loop:
  "batches n s h A endIndex start w = Some (start', w') \<Longrightarrow>
   Scan_loop s h A endIndex start w = Scan_loop s h A endIndex start' w'"
proof (induction n arbitrary: start w)
  case 0
  then show ?case by simp
next
  case (Suc n)
  let ?e = "wrap64 (min_int64 (wrap64 (start + BatchSize (opts s))) endIndex - 1)"
  from Suc.prems have lt: "start < endIndex"
    by (auto split: if_splits)
  from Suc.prems lt obtain w1 where f: "fetch s h A \<lparr>r_start = start, r_end = ?e\<rparr> w = Some (None, w1)"
    and rest: "batches n s h A endIndex (wrap64 (?e + 1)) w1 = Some (start', w')"
    by (auto simp: Let_def split: option.splits prod.splits)
  have "Scan_loop s h A endIndex start w = Scan_loop s h A endIndex (wrap64 (?e + 1)) w1"
    by (subst Scan_loop.simps) (simp add: lt f Let_def)
  with Suc.IH [OF rest] show ?case by simp
qed


text \<open>
  \<open>Scan\<close> is its prologue, the batch loop, and on the success path its epilogue,
  whether or not the batch loop returns.
\<close>

lemma Scan_prologue:
  "Scan s h A startIndex endIndex w =
     Option.bind (Scan_loop s h A endIndex startIndex (w\<lparr>events := events w @ prologue s\<rparr>))
       (\<lambda>(err, w4). Some (err,
          case err of None \<Rightarrow> w4\<lparr>events := events w4 @ epilogue s\<rparr> | Some e \<Rightarrow> w4))"
proof -
  have w3: "(emit Reset_certsProcessed (Log s Starting_scan w))
      \<lparr>events := events (emit Reset_certsProcessed (Log s Starting_scan w))
         @ map Go_processerJob [0..NumWorkers (opts s) - 1]\<rparr>
    = w\<lparr>events := events w @ prologue s\<rparr>"
    by (simp add: prologue_def emit_def Log_def)
  have k: "(\<lambda>(err, w4). case err of
               Some e \<Rightarrow> Some (Some e, w4)
             | None \<Rightarrow>
                 Some (None,
                   (if \<not> Quiet (opts s) then emit Print_Completed else id)
                     (emit WaitGroup_Wait (emit Close_jobs w4))))
    = (\<lambda>(err, w4). Some (err,
          case err of None \<Rightarrow> w4\<lparr>events := events w4 @ epilogue s\<rparr> | Some e \<Rightarrow> w4))"
    by (auto simp: fun_eq_iff epilogue_def emit_def split: option.splits)
  show ?thesis
    unfolding Scan_def Let_def w3 k ..
qed

lemma Scan_at_batch:
  assumes "batches k s h A endIndex startIndex (w\<lparr>events := events w @ prologue s\<rparr>) = Some (start, w1)"
    and "Scan_loop s h A endIndex start w1 = Some (Some err, w2)"
  shows "Scan s h A startIndex endIndex w = Some (Some err, w2)"
  unfolding Scan_prologue batches_Scan_loop [OF assms(1)] assms(2) by simp











lemma own_map_Current: "own (map Current gs) = gs"
  by (induction gs) auto

lemma fetch_gives_up:
  assumes "\<And>j. j \<le> 10 \<Longrightarrow>
      GetEntries (logClient s) (requests w + j) (r_start r) (r_end r) = Inl (errs j)"
  shows "fetch s h A r w =
    Some (Some (errs 10),
      w\<lparr>requests := requests w + 11,
        events := events w @ failed_attempts s r FETCH_RETRY_WAIT (map errs [0..<10])
          @ request_events s r
          @ [Print (Problem_fetching (r_start r) (r_end r) (Error (errs 10)))]\<rparr>)"
proof -
  let ?errs = "map errs [0..<10]"
  let ?w1 = "w\<lparr>requests := requests w + length ?errs,
      events := events w @ failed_attempts s r FETCH_RETRY_WAIT ?errs\<rparr>"
  have "fetch_passes (length ?errs) s h A r FETCH_RETRIES FETCH_RETRY_WAIT w =
      Again r (FETCH_RETRIES - int (length ?errs)) (FETCH_RETRY_WAIT * 2 ^ length ?errs) ?w1"
  proof (rule fetch_passes_failures)
    fix j assume "j < length ?errs"
    then have j: "j < 10" by simp
    then have "?errs ! j = errs j"
      using nth_map_upt [of j 10 0 errs] by simp
    with assms [of j] j
    show "GetEntries (logClient s) (requests w + j) (r_start r) (r_end r) = Inl (?errs ! j)"
      by simp
  next
    show "int (length ?errs) \<le> FETCH_RETRIES" by (simp add: FETCH_RETRIES_def)
  qed
  then have loop: "fetch_loop s h A r FETCH_RETRIES FETCH_RETRY_WAIT w =
      fetch_loop s h A r (FETCH_RETRIES - int (length ?errs)) (FETCH_RETRY_WAIT * 2 ^ length ?errs) ?w1"
    by (rule fetch_passes_Again)
  have last: "GetEntries (logClient s) (requests ?w1) (r_start r) (r_end r) = Inl (errs 10)"
    using assms [of 10] by simp
  show ?thesis
    unfolding fetch_def loop
    by (subst fetch_loop.simps, subst fetch_body_fail [OF last]) (simp add: FETCH_RETRIES_def)
qed

lemma calls_prologue: "calls (prologue s) = []"
proof -
  have "calls (map Go_processerJob ws) = []" for ws
    by (induction ws) auto
  then show ?thesis
    by (simp add: prologue_def calls_append)
qed

lemma sleeps_request_events: "sleeps (request_events s r) = []"
  by (simp add: request_events_def)



lemma fetch_events_prologue_epilogue:
  assumes "list_all fetch_event new"
  shows "Close_jobs \<notin> set (prologue s @ new)" "WaitGroup_Wait \<notin> set (prologue s @ new)"
    "Print_Completed \<notin> set (prologue s @ new)"
  using assms fetch_event_not_control by (auto simp: prologue_def list_all_iff)

lemma fetch_body_success:
  assumes "GetEntries (logClient s) (requests w) (r_start r) (r_end r) = Inr es"
  shows "\<exists>xs. events (world_of (fetch_body s h A r ret wt w))
      = events w @ request_events s r @ map Send xs \<and> length xs = length es"
    and "(\<exists>w'. fetch_body s h A r ret wt w = Return None w') \<or>
      (\<exists>r' w'. fetch_body s h A r ret wt w = Again r' FETCH_RETRIES FETCH_RETRY_WAIT w')"
proof -
  let ?w2 = "emit (GetEntries_call (r_start r) (r_end r))
      (Log s (Fetching_entries (r_start r) (r_end r)) w
        \<lparr>requests := Suc (requests (Log s (Fetching_entries (r_start r) (r_end r)) w))\<rparr>)"
  obtain xs where xs: "events (snd (deliver h A es r ?w2)) = events ?w2 @ map Send xs"
    "length xs = length es"
    using deliver_events by blast
  have ev: "events ?w2 = events w @ request_events s r"
    by (simp add: emit_def Log_def request_events_def)
  have "world_of (fetch_body s h A r ret wt w) = snd (deliver h A es r ?w2)"
    using assms by (auto simp: fetch_body_def Let_def split: prod.splits)
  with xs ev show "\<exists>xs. events (world_of (fetch_body s h A r ret wt w))
      = events w @ request_events s r @ map Send xs \<and> length xs = length es"
    by auto
  show "(\<exists>w'. fetch_body s h A r ret wt w = Return None w') \<or>
      (\<exists>r' w'. fetch_body s h A r ret wt w = Again r' FETCH_RETRIES FETCH_RETRY_WAIT w')"
    using assms by (auto simp: fetch_body_def Let_def split: prod.splits)
qed

lemma Scan_gives_up_at:
  assumes at: "batches k s h A endIndex startIndex (w0\<lparr>events := events w0 @ prologue s\<rparr>)
      = Some (start, w1)"
    and lt: "start < endIndex"
    and passes: "fetch_passes m s h A \<lparr>r_start = start,
        r_end = wrap64 (min_int64 (wrap64 (start + BatchSize (opts s))) endIndex - 1)\<rparr>
        FETCH_RETRIES FETCH_RETRY_WAIT w1 = Again r FETCH_RETRIES FETCH_RETRY_WAIT w"
    and fail: "\<And>j. j \<le> 10 \<Longrightarrow>
      GetEntries (logClient s) (requests w + j) (r_start r) (r_end r) = Inl (errs j)"
  shows "\<exists>w'. fetch s h A \<lparr>r_start = start,
        r_end = wrap64 (min_int64 (wrap64 (start + BatchSize (opts s))) endIndex - 1)\<rparr> w1
        = Some (Some (errs 10), w') \<and>
      Scan s h A startIndex endIndex w0 = Some (Some (errs 10), w') \<and>
      requests w' = requests w + 11 \<and>
      (\<exists>new. events w' = events w @ new \<and> sends new = [] \<and>
        calls new = replicate 11 (r_start r, r_end r) \<and>
        sleeps new = [1, 2, 4, 8, 16, 32, 64, 128, 256, 512])"
proof -
  let ?range = "\<lparr>r_start = start,
      r_end = wrap64 (min_int64 (wrap64 (start + BatchSize (opts s))) endIndex - 1)\<rparr>"
  let ?new = "failed_attempts s r FETCH_RETRY_WAIT (map errs [0..<10]) @ request_events s r
      @ [Print (Problem_fetching (r_start r) (r_end r) (Error (errs 10)))]"
  let ?w' = "w\<lparr>requests := requests w + 11, events := events w @ ?new\<rparr>"
  have "fetch s h A ?range w1 = fetch_loop s h A r FETCH_RETRIES FETCH_RETRY_WAIT w"
    unfolding fetch_def using fetch_passes_Again [OF passes] .
  also have "\<dots> = fetch s h A r w"
    by (simp add: fetch_def)
  also have "\<dots> = Some (Some (errs 10), ?w')"
    using fetch_gives_up [of s w r errs h A] fail by simp
  finally have f: "fetch s h A ?range w1 = Some (Some (errs 10), ?w')" .
  have l: "Scan_loop s h A endIndex start w1 = Some (Some (errs 10), ?w')"
    by (subst Scan_loop.simps) (simp add: lt f Let_def)
  have up: "[0..<10] = [0, 1, 2, 3, 4, 5, 6, 7, 8, 9::nat]"
    by (simp add: upt_rec)
  have "sends ?new = []"
    by (simp add: sends_append sends_failed_attempts sends_request_events)
  moreover have "calls ?new = replicate 11 (r_start r, r_end r)"
    by (simp add: calls_append calls_failed_attempts request_events_def numeral_eq_Suc
        replicate_append_same)
  moreover have "sleeps ?new = [1, 2, 4, 8, 16, 32, 64, 128, 256, 512]"
    by (simp add: sleeps_append sleeps_failed_attempts request_events_def up FETCH_RETRY_WAIT_def)
  ultimately show ?thesis
    using Scan_at_batch [OF at l] f by (intro exI [of _ ?w']) auto
qed





text \<open>
  Once a \<open>Scan\<close> that sent the entries of \<open>new\<close> has returned, the callback
  invocations that have returned are those for the indices sent.
\<close>

lemma delivered_when_returned:
  assumes "list_all fetch_event new" and "1 \<le> NumWorkers (opts s)"
    and "map Index (sends new) = [startIndex..endIndex - 1]"
    and "main (run gs (start_system c (prologue s @ new @ epilogue s))) = []"
  shows "mset (map Index (processed (run gs (start_system c (prologue s @ new @ epilogue s)))))
    = mset [startIndex..endIndex - 1]"
proof -
  from pool_returned [OF assms(1,2,4)]
  have "mset (processed (run gs (start_system c (prologue s @ new @ epilogue s)))) = mset (sends new)"
    by simp
  then have "mset (map Index (processed (run gs (start_system c (prologue s @ new @ epilogue s)))))
      = mset (map Index (sends new))"
    by (metis mset_map)
  then show ?thesis by (simp add: assms(3))
qed

section \<open>Scan delivers the range\<close>

text \<open>
  C1, as the code has it. Let \<open>BatchSize\<close> and \<open>NumWorkers\<close> be at least 1 and the
  indices \<open>startIndex < endIndex\<close> be such that \<open>endIndex + BatchSize\<close> does not
  overflow an \<open>int64\<close>.

  If the log answers every request for a non-empty range without error, with at least
  one entry and no more entries than requested, then \<open>Scan\<close> returns \<open>nil\<close>; the
  entries it sends on the channel carry exactly the indices
  \<open>startIndex, ..., endIndex - 1\<close>, in this order; there is a scheduling of the
  goroutines under which \<open>Scan\<close> returns; and under every scheduling, once \<open>Scan\<close> has
  returned, the callback invocations that have returned are one for each of these
  indices.

  And whenever \<open>Scan\<close> returns \<open>nil\<close>, whatever requests failed and were retried, if
  no response held more entries than requested, the same holds of what was sent and of
  the callback invocations that have returned once \<open>Scan\<close> has.
\<close>

theorem Scan_delivers_range:
  "(1 \<le> BatchSize (opts s) \<and> 1 \<le> NumWorkers (opts s) \<and>
    - (2 ^ 63) \<le> startIndex \<and> startIndex < endIndex \<and> endIndex + BatchSize (opts s) < 2 ^ 63 \<and>
    (\<forall>n a b. a \<le> b \<longrightarrow>
       (\<exists>es. GetEntries (logClient s) n a b = Inr es \<and> es \<noteq> [] \<and> int (length es) \<le> b - a + 1)) \<longrightarrow>
      (\<exists>w'. Scan s hashLeaf Add startIndex endIndex \<lparr>requests = n0, builder = tb, events = []\<rparr>
          = Some (None, w') \<and>
        map Index (sends (events w')) = [startIndex..endIndex - 1] \<and>
        (\<forall>c. \<exists>gs. main (run gs (start_system c (events w'))) = []) \<and>
        (\<forall>gs c. main (run gs (start_system c (events w'))) = [] \<longrightarrow>
           mset (map Index (processed (run gs (start_system c (events w')))))
             = mset [startIndex..endIndex - 1]))) \<and>
   (1 \<le> BatchSize (opts s) \<and> 1 \<le> NumWorkers (opts s) \<and>
    - (2 ^ 63) \<le> startIndex \<and> startIndex < endIndex \<and> endIndex + BatchSize (opts s) < 2 ^ 63 \<and>
    (\<forall>n a b es. a \<le> b \<and> GetEntries (logClient s) n a b = Inr es \<longrightarrow>
       int (length es) \<le> b - a + 1) \<and>
    Scan s hashLeaf Add startIndex endIndex \<lparr>requests = n0, builder = tb, events = []\<rparr>
      = Some (None, w') \<longrightarrow>
      map Index (sends (events w')) = [startIndex..endIndex - 1] \<and>
      (\<forall>gs c. main (run gs (start_system c (events w'))) = [] \<longrightarrow>
         mset (map Index (processed (run gs (start_system c (events w')))))
           = mset [startIndex..endIndex - 1]))"
proof (intro conjI impI)
  let ?w = "\<lparr>requests = n0, builder = tb, events = []\<rparr>"
  assume a: "1 \<le> BatchSize (opts s) \<and> 1 \<le> NumWorkers (opts s) \<and>
    - (2 ^ 63) \<le> startIndex \<and> startIndex < endIndex \<and> endIndex + BatchSize (opts s) < 2 ^ 63 \<and>
    (\<forall>n a b. a \<le> b \<longrightarrow>
       (\<exists>es. GetEntries (logClient s) n a b = Inr es \<and> es \<noteq> [] \<and> int (length es) \<le> b - a + 1))"
  then have nw: "1 \<le> NumWorkers (opts s)" by simp
  have wf: "es \<noteq> [] \<and> int (length es) \<le> b - a + 1"
    if "a \<le> b" "GetEntries (logClient s) n a b = Inr es" for n a b es
    using a that by (metis Inr_inject)
  have recover: "\<exists>k\<le>10. \<exists>es. GetEntries (logClient s) (n + k) a b = Inr es" if "a \<le> b" for n a b
  proof -
    from a that obtain es where "GetEntries (logClient s) n a b = Inr es" by blast
    then show ?thesis by (intro exI [of _ 0]) auto
  qed
  have "\<exists>w' new. Scan s hashLeaf Add startIndex endIndex ?w = Some (None, w') \<and>
      events w' = events ?w @ prologue s @ new @ epilogue s \<and>
      map Index (sends new) = [startIndex..endIndex - 1] \<and> list_all fetch_event new"
    using a by (intro Scan_total wf recover) auto
  then obtain w' new where scan: "Scan s hashLeaf Add startIndex endIndex ?w = Some (None, w')"
    and ev: "events w' = prologue s @ new @ epilogue s"
    and idx: "map Index (sends new) = [startIndex..endIndex - 1]"
    and new: "list_all fetch_event new"
    by auto
  have sent: "map Index (sends (events w')) = [startIndex..endIndex - 1]"
    by (simp add: ev sends_Scan_trace idx)
  have can: "\<forall>c. \<exists>gs. main (run gs (start_system c (events w'))) = []"
    unfolding ev using Scan_can_return [OF new nw] by blast
  have all: "\<forall>gs c. main (run gs (start_system c (events w'))) = [] \<longrightarrow>
      mset (map Index (processed (run gs (start_system c (events w')))))
        = mset [startIndex..endIndex - 1]"
    unfolding ev using delivered_when_returned [OF new nw idx] by blast
  from scan sent can all
  show "\<exists>w'. Scan s hashLeaf Add startIndex endIndex ?w = Some (None, w') \<and>
        map Index (sends (events w')) = [startIndex..endIndex - 1] \<and>
        (\<forall>c. \<exists>gs. main (run gs (start_system c (events w'))) = []) \<and>
        (\<forall>gs c. main (run gs (start_system c (events w'))) = [] \<longrightarrow>
           mset (map Index (processed (run gs (start_system c (events w')))))
             = mset [startIndex..endIndex - 1])"
    by blast
next
  let ?w = "\<lparr>requests = n0, builder = tb, events = []\<rparr>"
  assume a: "1 \<le> BatchSize (opts s) \<and> 1 \<le> NumWorkers (opts s) \<and>
    - (2 ^ 63) \<le> startIndex \<and> startIndex < endIndex \<and> endIndex + BatchSize (opts s) < 2 ^ 63 \<and>
    (\<forall>n a b es. a \<le> b \<and> GetEntries (logClient s) n a b = Inr es \<longrightarrow>
       int (length es) \<le> b - a + 1) \<and>
    Scan s hashLeaf Add startIndex endIndex ?w = Some (None, w')"
  then have nw: "1 \<le> NumWorkers (opts s)" by simp
  have bound: "int (length es) \<le> b - a + 1"
    if "a \<le> b" "GetEntries (logClient s) n a b = Inr es" for n a b es
    using a that by blast
  have "\<exists>new. events w' = events ?w @ prologue s @ new @ epilogue s \<and>
      map Index (sends new) = [startIndex..endIndex - 1] \<and> list_all fetch_event new"
    using a by (intro Scan_partial [where s = s and h = hashLeaf and A = Add] bound) auto
  then obtain new where ev: "events w' = prologue s @ new @ epilogue s"
    and idx: "map Index (sends new) = [startIndex..endIndex - 1]"
    and new: "list_all fetch_event new"
    by auto
  show "map Index (sends (events w')) = [startIndex..endIndex - 1]"
    by (simp add: ev sends_Scan_trace idx)
  show "\<forall>gs c. main (run gs (start_system c (events w'))) = [] \<longrightarrow>
      mset (map Index (processed (run gs (start_system c (events w')))))
        = mset [startIndex..endIndex - 1]"
    unfolding ev using delivered_when_returned [OF new nw idx] by blast
qed

text \<open>
  C1 as stated fails for logs that never return an error: one that answers with more
  entries than requested has index 1 delivered twice and index 2 delivered though it
  lies beyond the range \<open>[0, 2)\<close>; and one that answers with no entries keeps
  \<open>Scan\<close> from ever returning.
\<close>

theorem Scan_never_erring_log_counterexample:
  "Scan (example_scanner 1 1 two_at_a_time) no_hash no_Add 0 2 no_builder
     = Some (None, \<lparr>requests = 2, builder = None, events = overlong_trace\<rparr>) \<and>
   map Index (sends overlong_trace) = [0, 1, 1, 2] \<and>
   Scan (example_scanner 1 1 always_empty) no_hash no_Add 0 1 no_builder = None"
proof (intro conjI)
  show "Scan (example_scanner 1 1 two_at_a_time) no_hash no_Add 0 2 no_builder
     = Some (None, \<lparr>requests = 2, builder = None, events = overlong_trace\<rparr>)"
    by code_simp
  show "map Index (sends overlong_trace) = [0, 1, 1, 2]"
    by (simp add: overlong_trace_def)
next
  let ?s = "example_scanner 1 1 always_empty"
  have "fetch_loop ?s no_hash no_Add \<lparr>r_start = 0, r_end = 0\<rparr> FETCH_RETRIES FETCH_RETRY_WAIT w = None"
    for w :: "unit world"
    by (rule fetch_loop_diverges) (simp_all add: example_scanner_def always_empty_def)
  then have "Scan_loop ?s no_hash no_Add 1 0 w = None" for w :: "unit world"
    by (subst Scan_loop.simps)
      (simp add: fetch_def example_scanner_def wrap64_def min_int64_def)
  then show "Scan ?s no_hash no_Add 0 1 no_builder = None"
    by (simp add: Scan_def Let_def)
qed

theorem Scan_delivers_range_witness:
  "Scan (example_scanner 2 2 one_at_a_time) no_hash no_Add 0 3 no_builder
     = Some (None, \<lparr>requests = 3, builder = None, events = example_trace\<rparr>) \<and>
   map Index (sends example_trace) = [0, 1, 2] \<and>
   main (run example_schedule (start_system 7 example_trace)) = [] \<and>
   mset (map Index (processed (run example_schedule (start_system 7 example_trace))))
     = mset [0, 1, 2] \<and>
   map Index (processed (run example_schedule (start_system 7 example_trace))) = [1, 0, 2]"
proof -
  let ?s = "example_scanner 2 2 one_at_a_time"
  let ?W = "\<lparr>requests = 3, builder = None :: unit option, events = example_trace\<rparr>"
  have up: "[0..3 - 1] = [0, 1, (2::int)]"
    by (simp add: upto.simps)
  have scan: "Scan ?s no_hash no_Add 0 3 no_builder = Some (None, ?W)"
    by code_simp
  have returned: "main (run example_schedule (start_system 7 example_trace)) = []"
    by code_simp
  have order: "map Index (processed (run example_schedule (start_system 7 example_trace))) = [1, 0, 2]"
    by code_simp
  have h1: "1 \<le> BatchSize (opts ?s) \<and> 1 \<le> NumWorkers (opts ?s) \<and>
    - (2 ^ 63) \<le> (0::int) \<and> (0::int) < 3 \<and> 3 + BatchSize (opts ?s) < 2 ^ 63 \<and>
    (\<forall>n a b. a \<le> b \<longrightarrow>
       (\<exists>es. GetEntries (logClient ?s) n a b = Inr es \<and> es \<noteq> [] \<and> int (length es) \<le> b - a + 1))"
    by (simp add: example_scanner_def one_at_a_time_def)
  have h2: "1 \<le> BatchSize (opts ?s) \<and> 1 \<le> NumWorkers (opts ?s) \<and>
    - (2 ^ 63) \<le> (0::int) \<and> (0::int) < 3 \<and> 3 + BatchSize (opts ?s) < 2 ^ 63 \<and>
    (\<forall>n a b es. a \<le> b \<and> GetEntries (logClient ?s) n a b = Inr es \<longrightarrow>
       int (length es) \<le> b - a + 1) \<and>
    Scan ?s no_hash no_Add 0 3 \<lparr>requests = 0, builder = None, events = []\<rparr> = Some (None, ?W)"
    using scan by (auto simp: example_scanner_def one_at_a_time_def no_builder_def)
  note inst = Scan_delivers_range [where s = ?s and startIndex = 0 and endIndex = 3
      and hashLeaf = no_hash and Add = no_Add and ?n0.0 = 0 and tb = "None :: unit option"]
  from inst [THEN conjunct1, rule_format, OF h1]
  obtain w1 where "Scan ?s no_hash no_Add 0 3 no_builder = Some (None, w1)"
    and sent: "map Index (sends (events w1)) = [0, 1, 2]"
    unfolding up no_builder_def by (elim exE conjE)
  with scan have "w1 = ?W" by simp
  then have ev: "events w1 = example_trace" by simp
  from inst [where w' = ?W, THEN conjunct2, rule_format, OF h2]
  have "\<forall>gs c. main (run gs (start_system c example_trace)) = [] \<longrightarrow>
      mset (map Index (processed (run gs (start_system c example_trace)))) = mset [0, 1, 2]"
    unfolding up by simp
  with returned
  have "mset (map Index (processed (run example_schedule (start_system 7 example_trace))))
      = mset [0, 1, 2]"
    by blast
  with scan sent returned order show ?thesis
    unfolding ev by simp
qed

subsection \<open>The settings\<close>

text \<open>
  Why the settings must be at least 1. With no worker, \<open>Scan\<close> of \<open>[0, 1)\<close> returns
  \<open>nil\<close> with the entry left in the buffer and no callback invoked. With a batch size
  of 0 every batch is \<open>{start, start - 1}\<close>, the next one starts where this one did,
  and \<open>Scan\<close> never returns.
\<close>

lemma no_worker_no_callback:
  "Scan (example_scanner 1 0 one_at_a_time) no_hash no_Add 0 1 no_builder
     = Some (None, \<lparr>requests = 1, builder = None, events = no_worker_trace\<rparr>) \<and>
   main (run (replicate 5 Main) (start_system 0 no_worker_trace)) = [] \<and>
   processed (run (replicate 5 Main) (start_system 0 no_worker_trace)) = [] \<and>
   jobs (run (replicate 5 Main) (start_system 0 no_worker_trace)) = [\<lparr>Index = 0, LeafBytes = []\<rparr>]"
proof (intro conjI)
  show "Scan (example_scanner 1 0 one_at_a_time) no_hash no_Add 0 1 no_builder
     = Some (None, \<lparr>requests = 1, builder = None, events = no_worker_trace\<rparr>)"
    by code_simp
  show "main (run (replicate 5 Main) (start_system 0 no_worker_trace)) = []"
    by code_simp
  show "processed (run (replicate 5 Main) (start_system 0 no_worker_trace)) = []"
    by code_simp
  show "jobs (run (replicate 5 Main) (start_system 0 no_worker_trace)) = [\<lparr>Index = 0, LeafBytes = []\<rparr>]"
    by code_simp
qed

lemma zero_batch_loop:
  assumes "Scan_loop s h A endIndex start w = Some y"
  shows "\<not> (s = example_scanner 0 1 one_at_a_time \<and> endIndex = 1 \<and> start = 0)"
proof (rule Scan_loop.raw_induct
    [where P = "\<lambda>s h A endIndex start w y.
       \<not> (s = example_scanner 0 1 one_at_a_time \<and> endIndex = 1 \<and> start = 0)",
     OF _ assms], goal_cases)
  case (1 f s h A endIndex start w y)
  show ?case
  proof
    assume a: "s = example_scanner 0 1 one_at_a_time \<and> endIndex = 1 \<and> start = 0"
    let ?r = "\<lparr>r_start = 0, r_end = - 1\<rparr>"
    let ?w1 = "w\<lparr>requests := Suc (requests w), builder := feed h A [example_entry] (builder w),
        events := events w @ request_events s ?r @ map Send (stamp 0 [example_entry])\<rparr>"
    have e: "wrap64 (min_int64 (wrap64 (start + BatchSize (opts s))) endIndex - 1) = - 1"
      using a by (simp add: example_scanner_def wrap64_def min_int64_def)
    have ok: "GetEntries (logClient s) (requests w) (r_start ?r) (r_end ?r) = Inr [example_entry]"
      using a by (simp add: example_scanner_def one_at_a_time_def)
    have "fetch_body s h A ?r FETCH_RETRIES FETCH_RETRY_WAIT w = Return None ?w1"
      by (subst fetch_body_ok [OF ok]) simp_all
    then have f: "fetch s h A ?r w = Some (None, ?w1)"
      unfolding fetch_def by (subst fetch_loop.simps) simp
    from a have ea: "endIndex = 1" and sta: "start = 0" by auto
    from 1(2) have "f s h A endIndex (wrap64 (- 1 + 1)) ?w1 = Some y"
      unfolding e Let_def using ea sta by (simp add: f)
    then have "f s h A 1 0 ?w1 = Some y"
      using ea by (simp add: wrap64_def)
    from 1(1) [OF this] a show False by simp
  qed
qed

lemma zero_batch_never_returns:
  "Scan (example_scanner 0 1 one_at_a_time) no_hash no_Add 0 1 no_builder = None"
proof -
  have "Scan_loop (example_scanner 0 1 one_at_a_time) no_hash no_Add 1 0 w = None"
    for w :: "unit world"
    using zero_batch_loop [of "example_scanner 0 1 one_at_a_time" no_hash no_Add 1 0 w]
    by (cases "Scan_loop (example_scanner 0 1 one_at_a_time) no_hash no_Add 1 0 w") auto
  then show ?thesis
    by (simp add: Scan_def Let_def)
qed

section \<open>The counter of processed entries\<close>




subsection \<open>Workers left by an earlier Scan\<close>

text \<open>
  The pools of earlier calls have to be drained. A \<open>Scan\<close> of \<open>[0, 2)\<close> that returns
  an error from its second batch can leave entry 0 in its channel, with its worker
  waiting. The next \<open>Scan\<close> on the same \<open>Scanner\<close>, of \<open>[10, 11)\<close>, resets the
  counter and returns \<open>nil\<close>; when the worker left behind has counted entry 0 in the
  meantime, the counter is 2 once this \<open>Scan\<close> has returned.
\<close>

lemma certsProcessed_leaked_worker:
  "Scan (example_scanner 1 1 outage) no_hash no_Add 0 2 no_builder
     = Some (Some (Collaborator ''timeout''),
         \<lparr>requests = 12, builder = None, events = second_batch_trace\<rparr>) \<and>
   main undrained_pool = [] \<and> \<not> drained undrained_pool \<and>
   Scan (example_scanner 1 1 outage) no_hash no_Add 10 11 \<lparr>requests = 12, builder = None, events = []\<rparr>
     = Some (None, \<lparr>requests = 13, builder = None, events = next_scan_trace\<rparr>) \<and>
   main (current (acts leak_schedule
     \<lparr>current = start_system (certsProcessed undrained_pool) next_scan_trace,
      earlier = [undrained_pool]\<rparr>)) = [] \<and>
   map Index (processed (current (acts leak_schedule
     \<lparr>current = start_system (certsProcessed undrained_pool) next_scan_trace,
      earlier = [undrained_pool]\<rparr>))) = [10] \<and>
   certsProcessed (current (acts leak_schedule
     \<lparr>current = start_system (certsProcessed undrained_pool) next_scan_trace,
      earlier = [undrained_pool]\<rparr>)) = 2"
proof (intro conjI)
  show "Scan (example_scanner 1 1 outage) no_hash no_Add 0 2 no_builder
     = Some (Some (Collaborator ''timeout''),
         \<lparr>requests = 12, builder = None, events = second_batch_trace\<rparr>)"
    by code_simp
  show "main undrained_pool = []"
    by code_simp
  show "\<not> drained undrained_pool"
    by code_simp
  show "Scan (example_scanner 1 1 outage) no_hash no_Add 10 11 \<lparr>requests = 12, builder = None, events = []\<rparr>
     = Some (None, \<lparr>requests = 13, builder = None, events = next_scan_trace\<rparr>)"
    by code_simp
  show "main (current (acts leak_schedule
     \<lparr>current = start_system (certsProcessed undrained_pool) next_scan_trace,
      earlier = [undrained_pool]\<rparr>)) = []"
    by code_simp
  show "map Index (processed (current (acts leak_schedule
     \<lparr>current = start_system (certsProcessed undrained_pool) next_scan_trace,
      earlier = [undrained_pool]\<rparr>))) = [10]"
    by code_simp
  show "certsProcessed (current (acts leak_schedule
     \<lparr>current = start_system (certsProcessed undrained_pool) next_scan_trace,
      earlier = [undrained_pool]\<rparr>)) = 2"
    by code_simp
qed

section \<open>The retry budget\<close>

text \<open>
  C3, as the code has it. \<open>fetch\<close> retries a failed request ten times, so it gives
  up at the eleventh consecutive failure.

  Let \<open>BatchSize\<close> and \<open>NumWorkers\<close> be at least 1 and \<open>startIndex < endIndex\<close> with
  \<open>endIndex + BatchSize\<close> not overflowing an \<open>int64\<close>. If the log never fails a
  request more than ten times in a row, and its successful answers hold at least one
  entry and no more than requested, then \<open>Scan\<close> returns \<open>nil\<close> having sent exactly
  the entries of the range, \<open>endIndex - startIndex\<close> of them; there is a scheduling of
  the goroutines under which \<open>Scan\<close> returns; and under every scheduling, once \<open>Scan\<close>
  has returned, the callback invocations that have returned are
  \<open>endIndex - startIndex\<close>, one for each index of the range.

  A run of failures begins with the full budget: at the start of the fetch of a batch,
  or after a successful response within it. The batch loop goes on from where its first
  \<open>k\<close> batches, fetched without error, have left it. Let it have fetched any number
  \<open>k\<close> of batches without error, and let the fetch of the next batch be at the head of
  its loop with the full budget after any number \<open>m\<close> of passes. If the eleven requests
  from there on all fail, then this \<open>fetch\<close> returns the eleventh error and \<open>Scan\<close>
  returns it, with the world as the fetch left it: since the run of failures began,
  eleven requests were made, all for the same range, ten waits lie between them, nothing
  was sent, and nothing is requested afterward.
\<close>

theorem retry_budget:
  "((\<forall>n a b es. a \<le> b \<and> GetEntries (logClient s) n a b = Inr es \<longrightarrow>
        es \<noteq> [] \<and> int (length es) \<le> b - a + 1) \<and>
    (\<forall>n a b. a \<le> b \<longrightarrow> (\<exists>k\<le>10. \<exists>es. GetEntries (logClient s) (n + k) a b = Inr es)) \<and>
    1 \<le> BatchSize (opts s) \<and> 1 \<le> NumWorkers (opts s) \<and>
    - (2 ^ 63) \<le> startIndex \<and> startIndex < endIndex \<and>
    endIndex + BatchSize (opts s) < 2 ^ 63 \<longrightarrow>
      (\<exists>w'. Scan s hashLeaf Add startIndex endIndex \<lparr>requests = n0, builder = tb, events = []\<rparr>
          = Some (None, w') \<and>
        map Index (sends (events w')) = [startIndex..endIndex - 1] \<and>
        int (length (sends (events w'))) = endIndex - startIndex \<and>
        (\<forall>c. \<exists>gs. main (run gs (start_system c (events w'))) = []) \<and>
        (\<forall>gs c. main (run gs (start_system c (events w'))) = [] \<longrightarrow>
           mset (map Index (processed (run gs (start_system c (events w')))))
             = mset [startIndex..endIndex - 1] \<and>
           int (length (processed (run gs (start_system c (events w'))))) = endIndex - startIndex))) \<and>
   (batches k s hashLeaf Add endIndex origin wo = Some (start, w1) \<longrightarrow>
      Scan_loop s hashLeaf Add endIndex origin wo = Scan_loop s hashLeaf Add endIndex start w1) \<and>
   (batches k s hashLeaf Add endIndex startIndex \<lparr>requests = n0, builder = tb, events = prologue s\<rparr>
      = Some (start, w1) \<and>
    start < endIndex \<and>
    fetch_passes m s hashLeaf Add \<lparr>r_start = start,
      r_end = wrap64 (min_int64 (wrap64 (start + BatchSize (opts s))) endIndex - 1)\<rparr> 10 1 w1
      = Again r 10 1 w \<and>
    (\<forall>j\<le>10. GetEntries (logClient s) (requests w + j) (r_start r) (r_end r) = Inl (errs j)) \<longrightarrow>
      (\<exists>w'. fetch s hashLeaf Add \<lparr>r_start = start,
            r_end = wrap64 (min_int64 (wrap64 (start + BatchSize (opts s))) endIndex - 1)\<rparr> w1
          = Some (Some (errs 10), w') \<and>
        Scan s hashLeaf Add startIndex endIndex \<lparr>requests = n0, builder = tb, events = []\<rparr>
          = Some (Some (errs 10), w') \<and>
        requests w' = requests w + 11 \<and>
        (\<exists>new. events w' = events w @ new \<and> sends new = [] \<and>
          calls new = replicate 11 (r_start r, r_end r) \<and>
          sleeps new = [1, 2, 4, 8, 16, 32, 64, 128, 256, 512])))"
proof (intro conjI impI)
  assume a: "(\<forall>n a b es. a \<le> b \<and> GetEntries (logClient s) n a b = Inr es \<longrightarrow>
        es \<noteq> [] \<and> int (length es) \<le> b - a + 1) \<and>
    (\<forall>n a b. a \<le> b \<longrightarrow> (\<exists>k\<le>10. \<exists>es. GetEntries (logClient s) (n + k) a b = Inr es)) \<and>
    1 \<le> BatchSize (opts s) \<and> 1 \<le> NumWorkers (opts s) \<and>
    - (2 ^ 63) \<le> startIndex \<and> startIndex < endIndex \<and>
    endIndex + BatchSize (opts s) < 2 ^ 63"
  let ?w = "\<lparr>requests = n0, builder = tb, events = []\<rparr>"
  from a have nw: "1 \<le> NumWorkers (opts s)" by simp
  have wf: "es \<noteq> [] \<and> int (length es) \<le> b - a + 1"
    if "a \<le> b" "GetEntries (logClient s) n a b = Inr es" for n a b es
    using a that by blast
  have recover: "\<exists>k\<le>10. \<exists>es. GetEntries (logClient s) (n + k) a b = Inr es" if "a \<le> b" for n a b
    using a that by blast
  have "\<exists>w' new. Scan s hashLeaf Add startIndex endIndex ?w = Some (None, w') \<and>
      events w' = events ?w @ prologue s @ new @ epilogue s \<and>
      map Index (sends new) = [startIndex..endIndex - 1] \<and> list_all fetch_event new"
    using a by (intro Scan_total wf recover) auto
  then obtain w' new where scan: "Scan s hashLeaf Add startIndex endIndex ?w = Some (None, w')"
    and ev: "events w' = prologue s @ new @ epilogue s"
    and idx: "map Index (sends new) = [startIndex..endIndex - 1]"
    and new: "list_all fetch_event new"
    by auto
  have sent: "map Index (sends (events w')) = [startIndex..endIndex - 1]"
    by (simp add: ev sends_Scan_trace idx)
  then have "length (map Index (sends (events w'))) = nat (endIndex - startIndex)"
    by simp
  then have count: "int (length (sends (events w'))) = endIndex - startIndex"
    using a by simp
  have can: "\<forall>c. \<exists>gs. main (run gs (start_system c (events w'))) = []"
    unfolding ev using Scan_can_return [OF new nw] by blast
  have all: "\<forall>gs c. main (run gs (start_system c (events w'))) = [] \<longrightarrow>
      mset (map Index (processed (run gs (start_system c (events w')))))
        = mset [startIndex..endIndex - 1] \<and>
      int (length (processed (run gs (start_system c (events w'))))) = endIndex - startIndex"
  proof (intro allI impI)
    fix gs c
    assume ret: "main (run gs (start_system c (events w'))) = []"
    from delivered_when_returned [OF new nw idx ret [unfolded ev]]
    have m: "mset (map Index (processed (run gs (start_system c (events w')))))
        = mset [startIndex..endIndex - 1]"
      unfolding ev .
    then have "size (mset (map Index (processed (run gs (start_system c (events w'))))))
        = size (mset [startIndex..endIndex - 1])"
      by simp
    then have "int (length (processed (run gs (start_system c (events w'))))) = endIndex - startIndex"
      using a by simp
    with m show "mset (map Index (processed (run gs (start_system c (events w')))))
        = mset [startIndex..endIndex - 1] \<and>
      int (length (processed (run gs (start_system c (events w'))))) = endIndex - startIndex"
      by simp
  qed
  from scan sent count can all
  show "\<exists>w'. Scan s hashLeaf Add startIndex endIndex ?w = Some (None, w') \<and>
        map Index (sends (events w')) = [startIndex..endIndex - 1] \<and>
        int (length (sends (events w'))) = endIndex - startIndex \<and>
        (\<forall>c. \<exists>gs. main (run gs (start_system c (events w'))) = []) \<and>
        (\<forall>gs c. main (run gs (start_system c (events w'))) = [] \<longrightarrow>
           mset (map Index (processed (run gs (start_system c (events w')))))
             = mset [startIndex..endIndex - 1] \<and>
           int (length (processed (run gs (start_system c (events w'))))) = endIndex - startIndex)"
    by blast
next
  assume "batches k s hashLeaf Add endIndex origin wo = Some (start, w1)"
  then show "Scan_loop s hashLeaf Add endIndex origin wo = Scan_loop s hashLeaf Add endIndex start w1"
    by (rule batches_Scan_loop)
next
  let ?w = "\<lparr>requests = n0, builder = tb, events = []\<rparr>"
  let ?range = "\<lparr>r_start = start,
      r_end = wrap64 (min_int64 (wrap64 (start + BatchSize (opts s))) endIndex - 1)\<rparr>"
  assume a: "batches k s hashLeaf Add endIndex startIndex \<lparr>requests = n0, builder = tb, events = prologue s\<rparr>
      = Some (start, w1) \<and>
    start < endIndex \<and>
    fetch_passes m s hashLeaf Add ?range 10 1 w1 = Again r 10 1 w \<and>
    (\<forall>j\<le>10. GetEntries (logClient s) (requests w + j) (r_start r) (r_end r) = Inl (errs j))"
  then have at: "batches k s hashLeaf Add endIndex startIndex (?w\<lparr>events := events ?w @ prologue s\<rparr>)
      = Some (start, w1)"
    and lt: "start < endIndex"
    and passes: "fetch_passes m s hashLeaf Add ?range FETCH_RETRIES FETCH_RETRY_WAIT w1
      = Again r FETCH_RETRIES FETCH_RETRY_WAIT w"
    and fail: "\<And>j. j \<le> 10 \<Longrightarrow>
      GetEntries (logClient s) (requests w + j) (r_start r) (r_end r) = Inl (errs j)"
    by (simp_all add: FETCH_RETRIES_def FETCH_RETRY_WAIT_def)
  from Scan_gives_up_at [OF at lt passes fail]
  show "\<exists>w'. fetch s hashLeaf Add ?range w1 = Some (Some (errs 10), w') \<and>
        Scan s hashLeaf Add startIndex endIndex ?w = Some (Some (errs 10), w') \<and>
        requests w' = requests w + 11 \<and>
        (\<exists>new. events w' = events w @ new \<and> sends new = [] \<and>
          calls new = replicate 11 (r_start r, r_end r) \<and>
          sleeps new = [1, 2, 4, 8, 16, 32, 64, 128, 256, 512])"
    by simp
qed

text \<open>
  C3 as stated fails at exactly ten consecutive failures: the eleventh request is still
  made, and when it succeeds \<open>Scan\<close> returns \<open>nil\<close> with the entry sent.
\<close>

theorem ten_failures_counterexample:
  "Scan (example_scanner 1 1 (fails_first 10)) no_hash no_Add 0 1 no_builder
     = Some (None, \<lparr>requests = 11, builder = None, events = ten_failures_trace\<rparr>)"
  by code_simp

theorem retry_budget_witness:
  "Scan (example_scanner 1 1 (fails_first 10)) no_hash no_Add 0 1 no_builder
     = Some (None, \<lparr>requests = 11, builder = None, events = ten_failures_trace\<rparr>) \<and>
   map Index (sends ten_failures_trace) = [0] \<and>
   int (length (sends ten_failures_trace)) = 1 - 0 \<and>
   main (run ten_failures_schedule (start_system 0 ten_failures_trace)) = [] \<and>
   map Index (processed (run ten_failures_schedule (start_system 0 ten_failures_trace))) = [0] \<and>
   int (length (processed (run ten_failures_schedule (start_system 0 ten_failures_trace)))) = 1 - 0 \<and>
   batches 1 (example_scanner 2 1 (fails_from 3)) no_hash no_Add 4 0
       \<lparr>requests = 0, builder = None, events = take 2 late_failure_trace\<rparr>
     = Some (2, \<lparr>requests = 2, builder = None, events = take 6 late_failure_trace\<rparr>) \<and>
   Scan_loop (example_scanner 2 1 (fails_from 3)) no_hash no_Add 4 0
       \<lparr>requests = 0, builder = None, events = take 2 late_failure_trace\<rparr>
     = Some (Some (Collaborator ''timeout''),
         \<lparr>requests = 14, builder = None, events = late_failure_trace\<rparr>) \<and>
   fetch_passes 1 (example_scanner 2 1 (fails_from 3)) no_hash no_Add \<lparr>r_start = 2, r_end = 3\<rparr> 10 1
       \<lparr>requests = 2, builder = None, events = take 6 late_failure_trace\<rparr>
     = Again \<lparr>r_start = 3, r_end = 3\<rparr> 10 1
         \<lparr>requests = 3, builder = None, events = take 8 late_failure_trace\<rparr> \<and>
   fetch (example_scanner 2 1 (fails_from 3)) no_hash no_Add \<lparr>r_start = 2, r_end = 3\<rparr>
       \<lparr>requests = 2, builder = None, events = take 6 late_failure_trace\<rparr>
     = Some (Some (Collaborator ''timeout''),
         \<lparr>requests = 14, builder = None, events = late_failure_trace\<rparr>) \<and>
   Scan (example_scanner 2 1 (fails_from 3)) no_hash no_Add 0 4 no_builder
     = Some (Some (Collaborator ''timeout''),
         \<lparr>requests = 14, builder = None, events = late_failure_trace\<rparr>) \<and>
   sends (drop 8 late_failure_trace) = [] \<and>
   calls (drop 8 late_failure_trace) = replicate 11 (3, 3) \<and>
   sleeps (drop 8 late_failure_trace) = [1, 2, 4, 8, 16, 32, 64, 128, 256, 512]"
proof -
  let ?s10 = "example_scanner 1 1 (fails_first 10)"
  let ?s = "example_scanner 2 1 (fails_from 3)"
  let ?t = "Collaborator ''timeout''"
  let ?W10 = "\<lparr>requests = 11, builder = None :: unit option, events = ten_failures_trace\<rparr>"
  let ?wa = "\<lparr>requests = 0, builder = None :: unit option, events = take 2 late_failure_trace\<rparr>"
  let ?wb = "\<lparr>requests = 2, builder = None :: unit option, events = take 6 late_failure_trace\<rparr>"
  let ?wc = "\<lparr>requests = 3, builder = None :: unit option, events = take 8 late_failure_trace\<rparr>"
  let ?W = "\<lparr>requests = 14, builder = None :: unit option, events = late_failure_trace\<rparr>"
  have scan10: "Scan ?s10 no_hash no_Add 0 1 no_builder = Some (None, ?W10)"
    by code_simp
  have returned: "main (run ten_failures_schedule (start_system 0 ten_failures_trace)) = []"
    by code_simp
  have h1: "(\<forall>n a b es. a \<le> b \<and> GetEntries (logClient ?s10) n a b = Inr es \<longrightarrow>
        es \<noteq> [] \<and> int (length es) \<le> b - a + 1) \<and>
    (\<forall>n a b. a \<le> b \<longrightarrow> (\<exists>k\<le>10. \<exists>es. GetEntries (logClient ?s10) (n + k) a b = Inr es)) \<and>
    1 \<le> BatchSize (opts ?s10) \<and> 1 \<le> NumWorkers (opts ?s10) \<and>
    - (2 ^ 63) \<le> (0::int) \<and> (0::int) < 1 \<and>
    1 + BatchSize (opts ?s10) < 2 ^ 63"
  proof (intro conjI allI impI)
    fix n :: nat and a b :: int
    show "\<exists>k\<le>10. \<exists>es. GetEntries (logClient ?s10) (n + k) a b = Inr es"
      by (intro exI [of _ 10]) (simp add: example_scanner_def fails_first_def)
  qed (auto simp: example_scanner_def fails_first_def split: if_splits)
  from retry_budget [where s = ?s10 and startIndex = 0 and endIndex = 1 and hashLeaf = no_hash
      and Add = no_Add and ?n0.0 = 0 and tb = "None :: unit option",
      THEN conjunct1, rule_format, OF h1]
  obtain w' where "Scan ?s10 no_hash no_Add 0 1 no_builder = Some (None, w')"
    and r: "map Index (sends (events w')) = [0..1 - 1]"
      "int (length (sends (events w'))) = 1 - 0"
    and every: "\<forall>gs c. main (run gs (start_system c (events w'))) = [] \<longrightarrow>
       mset (map Index (processed (run gs (start_system c (events w'))))) = mset [0..1 - 1] \<and>
       int (length (processed (run gs (start_system c (events w'))))) = 1 - 0"
    unfolding no_builder_def by (elim exE conjE)
  with scan10 have "w' = ?W10"
    by simp
  then have ev10: "events w' = ten_failures_trace" by simp
  have ok: "map Index (sends ten_failures_trace) = [0]"
    "int (length (sends ten_failures_trace)) = 1 - 0"
    using r unfolding ev10 by (simp_all add: upto.simps)
  have range: "[0..1 - 1] = [0::int]"
    by (simp add: upto.simps)
  from every [unfolded ev10 range, rule_format, of ten_failures_schedule 0, OF returned]
  have single: "mset (map Index (processed (run ten_failures_schedule (start_system 0 ten_failures_trace))))
      = mset [0]"
    and len: "int (length (processed (run ten_failures_schedule (start_system 0 ten_failures_trace))))
      = 1 - 0"
    by blast+
  have "mset [0::int] = {#0#}" by simp
  with single have one: "map Index (processed (run ten_failures_schedule (start_system 0 ten_failures_trace)))
      = [0]"
    by (simp only: mset_single_iff)
  have w0: "\<lparr>requests = 0, builder = None :: unit option, events = prologue ?s\<rparr> = ?wa"
    by (simp add: prologue_def example_scanner_def late_failure_trace_def upto.simps)
  have e: "wrap64 (min_int64 (wrap64 (2 + BatchSize (opts ?s))) 4 - 1) = 3"
    by (simp add: example_scanner_def wrap64_def min_int64_def)
  have first: "batches 1 ?s no_hash no_Add 4 0 ?wa = Some (2, ?wb)"
    by code_simp
  have short: "fetch_passes 1 ?s no_hash no_Add \<lparr>r_start = 2, r_end = 3\<rparr> 10 1 ?wb
      = Again \<lparr>r_start = 3, r_end = 3\<rparr> 10 1 ?wc"
    by code_simp
  have scan: "Scan ?s no_hash no_Add 0 4 no_builder = Some (Some ?t, ?W)"
    by code_simp
  have h2: "batches 1 ?s no_hash no_Add 4 0 \<lparr>requests = 0, builder = None, events = prologue ?s\<rparr>
      = Some (2, ?wb) \<and>
    (2::int) < 4 \<and>
    fetch_passes 1 ?s no_hash no_Add \<lparr>r_start = 2,
      r_end = wrap64 (min_int64 (wrap64 (2 + BatchSize (opts ?s))) 4 - 1)\<rparr> 10 1 ?wb
      = Again \<lparr>r_start = 3, r_end = 3\<rparr> 10 1 ?wc \<and>
    (\<forall>j\<le>10. GetEntries (logClient ?s) (requests ?wc + j)
       (r_start \<lparr>r_start = 3, r_end = 3\<rparr>) (r_end \<lparr>r_start = 3, r_end = 3\<rparr>)
         = Inl ((\<lambda>j. ?t) j))"
    unfolding w0 e using first short by (simp add: example_scanner_def fails_from_def)
  from retry_budget [where s = ?s and startIndex = 0 and endIndex = 4 and hashLeaf = no_hash
      and Add = no_Add and ?n0.0 = 0 and tb = "None :: unit option" and k = 1 and m = 1
      and start = 2 and ?w1.0 = ?wb and w = ?wc and r = "\<lparr>r_start = 3, r_end = 3\<rparr>"
      and errs = "\<lambda>j. ?t",
      THEN conjunct2, THEN conjunct2, rule_format, OF h2]
  obtain w'' new where f: "fetch ?s no_hash no_Add \<lparr>r_start = 2, r_end = 3\<rparr> ?wb = Some (Some ?t, w'')"
    and "Scan ?s no_hash no_Add 0 4 no_builder = Some (Some ?t, w'')"
    and new: "events w'' = events ?wc @ new" "sends new = []" "calls new = replicate 11 (3, 3)"
      "sleeps new = [1, 2, 4, 8, 16, 32, 64, 128, 256, 512]"
    unfolding no_builder_def e by (elim exE conjE) simp
  with scan have w'': "w'' = ?W"
    by simp
  with new(1) have "take 8 late_failure_trace @ new = take 8 late_failure_trace @ drop 8 late_failure_trace"
    by simp
  then have "new = drop 8 late_failure_trace"
    by (simp only: same_append_eq)
  with new have tail: "sends (drop 8 late_failure_trace) = []"
    "calls (drop 8 late_failure_trace) = replicate 11 (3, 3)"
    "sleeps (drop 8 late_failure_trace) = [1, 2, 4, 8, 16, 32, 64, 128, 256, 512]"
    by simp_all
  have later: "Scan_loop ?s no_hash no_Add 4 2 ?wb = Some (Some ?t, ?W)"
    by code_simp
  from retry_budget [where s = ?s and endIndex = 4 and hashLeaf = no_hash and Add = no_Add
      and k = 1 and origin = 0 and wo = ?wa and start = 2 and ?w1.0 = ?wb,
      THEN conjunct2, THEN conjunct1, rule_format, OF first]
  have loop: "Scan_loop ?s no_hash no_Add 4 0 ?wa = Some (Some ?t, ?W)"
    unfolding later .
  from scan10 ok returned one len first loop short f [unfolded w''] scan tail show ?thesis
    by (intro conjI)
qed

subsection \<open>Without workers\<close>

text \<open>
  Why \<open>NumWorkers\<close> must be at least 1 for the scan to complete. With no worker
  nothing is taken from the channel, whose buffer holds 100 entries: a \<open>Scan\<close> that has
  more than 100 entries to send never returns, under any scheduling.
\<close>

lemma no_worker_step:
  assumes "workers s = []" and "\<forall>e\<in>set (main s). \<not> is_spawn e" and "length (jobs s) \<le> 100"
  shows "workers (step g s) = [] \<and> (\<forall>e\<in>set (main (step g s)). \<not> is_spawn e) \<and>
    length (jobs (step g s)) \<le> 100 \<and>
    length (jobs (step g s)) + length (sends (main (step g s)))
      = length (jobs s) + length (sends (main s))"
proof (cases g)
  case (Worker i)
  with assms show ?thesis by (simp add: processerJob_def)
next
  case Main
  show ?thesis
  proof (cases "main s")
    case Nil
    with Main assms show ?thesis by (simp add: main_step_def)
  next
    case (Cons a rest)
    show ?thesis
    proof (cases "blocked a s")
      case True
      with Main Cons assms show ?thesis by (simp add: main_step_def)
    next
      case False
      with Main Cons assms show ?thesis
        by (cases a) (auto simp: main_step_def)
    qed
  qed
qed

lemma no_worker_run:
  "workers s = [] \<Longrightarrow> \<forall>e\<in>set (main s). \<not> is_spawn e \<Longrightarrow> length (jobs s) \<le> 100 \<Longrightarrow>
   length (jobs (run gs s)) \<le> 100 \<and>
   length (jobs (run gs s)) + length (sends (main (run gs s)))
     = length (jobs s) + length (sends (main s))"
proof (induction gs arbitrary: s)
  case Nil
  then show ?case by simp
next
  case (Cons g gs)
  from no_worker_step [OF Cons.prems, of g]
  have 1: "workers (step g s) = []" "\<forall>e\<in>set (main (step g s)). \<not> is_spawn e"
    "length (jobs (step g s)) \<le> 100"
    and 2: "length (jobs (step g s)) + length (sends (main (step g s)))
      = length (jobs s) + length (sends (main s))"
    by simp_all
  from Cons.IH [OF 1] 2 show ?case by simp
qed

lemma Scan_needs_workers:
  assumes "NumWorkers (opts s) \<le> 0" and "list_all fetch_event new"
    and "100 < length (sends new)"
  shows "main (run gs (start_system c (prologue s @ new @ epilogue s))) \<noteq> []"
proof
  let ?sys = "start_system c (prologue s @ new @ epilogue s)"
  assume returned: "main (run gs ?sys) = []"
  from assms(1) have none: "[0..NumWorkers (opts s) - 1] = []"
    by simp
  have "\<forall>e\<in>set (main ?sys). \<not> is_spawn e"
    using assms(2) fetch_event_not_control
    by (auto simp: start_system_def prologue_def epilogue_def none list_all_iff)
  moreover have "workers ?sys = []" "length (jobs ?sys) \<le> 100"
    by (simp_all add: start_system_def)
  ultimately have "length (jobs (run gs ?sys)) \<le> 100"
    and "length (jobs (run gs ?sys)) + length (sends (main (run gs ?sys)))
      = length (jobs ?sys) + length (sends (main ?sys))"
    using no_worker_run [of ?sys gs] by simp_all
  moreover have "length (jobs ?sys) + length (sends (main ?sys)) = length (sends new)"
    by (simp add: start_system_def sends_Scan_trace)
  ultimately show False
    using returned assms(3) by simp
qed

section \<open>Scan on a fetch error\<close>

text \<open>
  C8. The batch loop of \<open>Scan\<close> goes on from where its first \<open>k\<close> batches, fetched
  without error, have left it. Let it have fetched any number \<open>k\<close> of batches without
  error, and let the fetch of the next batch return an error. Then \<open>Scan\<close> returns,
  it returns this error, and the world is as that fetch left it, \<open>Scan\<close> having done
  nothing since: it has not closed the channel, not waited for the workers and not
  printed the completion line; the last things it did are the request that failed and
  the warning with that error, so that no batch is fetched afterward; and under every
  scheduling of the goroutines the channel is never closed and no worker ever leaves its
  loop. And whenever \<open>Scan\<close> returns, the channel has been closed, the workers waited
  for and the completion line printed (unless quiet) exactly when it returns \<open>nil\<close>,
  and a returned error is the one the last request made has returned.
\<close>

theorem Scan_error_path:
  "(batches k s hashLeaf Add endIndex origin wo = Some (start, w1) \<longrightarrow>
      Scan_loop s hashLeaf Add endIndex origin wo = Scan_loop s hashLeaf Add endIndex start w1) \<and>
   (batches k s hashLeaf Add endIndex startIndex \<lparr>requests = n0, builder = tb, events = prologue s\<rparr>
      = Some (start, w1) \<and>
    start < endIndex \<and>
    fetch s hashLeaf Add \<lparr>r_start = start,
      r_end = wrap64 (min_int64 (wrap64 (start + BatchSize (opts s))) endIndex - 1)\<rparr> w1
      = Some (Some err, w2) \<longrightarrow>
      Scan s hashLeaf Add startIndex endIndex \<lparr>requests = n0, builder = tb, events = []\<rparr>
        = Some (Some err, w2) \<and>
      Close_jobs \<notin> set (events w2) \<and> WaitGroup_Wait \<notin> set (events w2) \<and>
      Print_Completed \<notin> set (events w2) \<and>
      (\<exists>a b pre. events w2 = pre @ [GetEntries_call a b, Print (Problem_fetching a b (Error err))] \<and>
         0 < requests w2 \<and> GetEntries (logClient s) (requests w2 - 1) a b = Inl err) \<and>
      (\<forall>gs c. \<not> closed (run gs (start_system c (events w2))) \<and>
         Exited \<notin> set (workers (run gs (start_system c (events w2)))))) \<and>
   (Scan s hashLeaf Add startIndex endIndex \<lparr>requests = n0, builder = tb, events = []\<rparr>
      = Some (res, w') \<longrightarrow>
      (Close_jobs \<in> set (events w') \<longleftrightarrow> res = None) \<and>
      (WaitGroup_Wait \<in> set (events w') \<longleftrightarrow> res = None) \<and>
      (Print_Completed \<in> set (events w') \<longleftrightarrow> res = None \<and> \<not> Quiet (opts s)) \<and>
      (\<forall>err. res = Some err \<longrightarrow>
         (\<exists>a b pre. events w' = pre @ [GetEntries_call a b, Print (Problem_fetching a b (Error err))] \<and>
            0 < requests w' \<and> GetEntries (logClient s) (requests w' - 1) a b = Inl err) \<and>
         (\<forall>gs c. \<not> closed (run gs (start_system c (events w'))) \<and>
            Exited \<notin> set (workers (run gs (start_system c (events w')))))))"
proof (intro conjI impI)
  assume "batches k s hashLeaf Add endIndex origin wo = Some (start, w1)"
  then show "Scan_loop s hashLeaf Add endIndex origin wo = Scan_loop s hashLeaf Add endIndex start w1"
    by (rule batches_Scan_loop)
next
  let ?w = "\<lparr>requests = n0, builder = tb, events = []\<rparr>"
  assume a: "batches k s hashLeaf Add endIndex startIndex \<lparr>requests = n0, builder = tb, events = prologue s\<rparr>
      = Some (start, w1) \<and>
    start < endIndex \<and>
    fetch s hashLeaf Add \<lparr>r_start = start,
      r_end = wrap64 (min_int64 (wrap64 (start + BatchSize (opts s))) endIndex - 1)\<rparr> w1
      = Some (Some err, w2)"
  then have at: "batches k s hashLeaf Add endIndex startIndex (?w\<lparr>events := events ?w @ prologue s\<rparr>)
      = Some (start, w1)"
    by simp
  from a have "Scan_loop s hashLeaf Add endIndex start w1 = Some (Some err, w2)"
    by (subst Scan_loop.simps) (simp add: Let_def)
  from Scan_at_batch [OF at this]
  show scan: "Scan s hashLeaf Add startIndex endIndex ?w = Some (Some err, w2)" .
  from Scan_events [OF scan] obtain new where new: "list_all fetch_event new"
    and ev: "events w2 = prologue s @ new" and fail: "ends_with_failure s (requests w2) err new"
    by auto
  note ctl = fetch_events_prologue_epilogue [OF new, of s]
  from ctl show "Close_jobs \<notin> set (events w2)" "WaitGroup_Wait \<notin> set (events w2)"
    "Print_Completed \<notin> set (events w2)"
    unfolding ev by simp_all
  from fail obtain a b pre where "new = pre @ [GetEntries_call a b, Print (Problem_fetching a b (Error err))]"
    "0 < requests w2" "GetEntries (logClient s) (requests w2 - 1) a b = Inl err"
    unfolding ends_with_failure_def by blast
  then show "\<exists>a b pre. events w2 = pre @ [GetEntries_call a b, Print (Problem_fetching a b (Error err))] \<and>
      0 < requests w2 \<and> GetEntries (logClient s) (requests w2 - 1) a b = Inl err"
    unfolding ev by (intro exI [of _ a] exI [of _ b] exI [of _ "prologue s @ pre"]) simp
  show "\<forall>gs c. \<not> closed (run gs (start_system c (events w2))) \<and>
      Exited \<notin> set (workers (run gs (start_system c (events w2))))"
    using ctl(1) by (intro allI never_closed) (simp_all add: start_system_def ev)
next
  assume scan: "Scan s hashLeaf Add startIndex endIndex \<lparr>requests = n0, builder = tb, events = []\<rparr>
      = Some (res, w')"
  from Scan_events [OF scan] obtain new where new: "list_all fetch_event new"
    and shape: "case res of
        None \<Rightarrow> events w' = events \<lparr>requests = n0, builder = tb, events = []\<rparr> @ prologue s @ new @ epilogue s
      | Some err \<Rightarrow> events w' = events \<lparr>requests = n0, builder = tb, events = []\<rparr> @ prologue s @ new \<and>
          ends_with_failure s (requests w') err new"
    by blast
  note ctl = fetch_events_prologue_epilogue [OF new, of s]
  have "(Close_jobs \<in> set (events w') \<longleftrightarrow> res = None) \<and>
    (WaitGroup_Wait \<in> set (events w') \<longleftrightarrow> res = None) \<and>
    (Print_Completed \<in> set (events w') \<longleftrightarrow> res = None \<and> \<not> Quiet (opts s)) \<and>
    (\<forall>err. res = Some err \<longrightarrow>
       (\<exists>a b pre. events w' = pre @ [GetEntries_call a b, Print (Problem_fetching a b (Error err))] \<and>
          0 < requests w' \<and> GetEntries (logClient s) (requests w' - 1) a b = Inl err) \<and>
       (\<forall>gs c. \<not> closed (run gs (start_system c (events w'))) \<and>
          Exited \<notin> set (workers (run gs (start_system c (events w'))))))"
  proof (cases res)
    case None
    with shape have "events w' = (prologue s @ new) @ epilogue s" by simp
    with ctl None show ?thesis
      by (auto simp: epilogue_def)
  next
    case (Some err)
    with shape have ev: "events w' = prologue s @ new"
      and fail: "ends_with_failure s (requests w') err new"
      by auto
    from fail obtain a b pre where "new = pre @ [GetEntries_call a b, Print (Problem_fetching a b (Error err))]"
      "0 < requests w'" "GetEntries (logClient s) (requests w' - 1) a b = Inl err"
      unfolding ends_with_failure_def by blast
    then have last: "\<exists>a b pre. events w' = pre @ [GetEntries_call a b, Print (Problem_fetching a b (Error err))] \<and>
          0 < requests w' \<and> GetEntries (logClient s) (requests w' - 1) a b = Inl err"
      unfolding ev by (intro exI [of _ a] exI [of _ b] exI [of _ "prologue s @ pre"]) simp
    have leak: "\<not> closed (run gs (start_system c (events w'))) \<and>
        Exited \<notin> set (workers (run gs (start_system c (events w'))))" for gs c
      using ctl(1) by (intro never_closed) (simp_all add: start_system_def ev)
    from Some ctl last leak show ?thesis
      unfolding ev by auto
  qed
  then show "Close_jobs \<in> set (events w') \<longleftrightarrow> res = None"
    and "WaitGroup_Wait \<in> set (events w') \<longleftrightarrow> res = None"
    and "Print_Completed \<in> set (events w') \<longleftrightarrow> res = None \<and> \<not> Quiet (opts s)"
    and "\<forall>err. res = Some err \<longrightarrow>
       (\<exists>a b pre. events w' = pre @ [GetEntries_call a b, Print (Problem_fetching a b (Error err))] \<and>
          0 < requests w' \<and> GetEntries (logClient s) (requests w' - 1) a b = Inl err) \<and>
       (\<forall>gs c. \<not> closed (run gs (start_system c (events w'))) \<and>
          Exited \<notin> set (workers (run gs (start_system c (events w')))))"
    by blast+
qed

theorem Scan_error_path_witness:
  "batches 1 (example_scanner 1 1 (fails_from 1)) no_hash no_Add 2 0
       \<lparr>requests = 0, builder = None, events = take 2 second_batch_trace\<rparr>
     = Some (1, \<lparr>requests = 1, builder = None, events = take 4 second_batch_trace\<rparr>) \<and>
   fetch (example_scanner 1 1 (fails_from 1)) no_hash no_Add \<lparr>r_start = 1, r_end = 1\<rparr>
       \<lparr>requests = 1, builder = None, events = take 4 second_batch_trace\<rparr>
     = Some (Some (Collaborator ''timeout''),
         \<lparr>requests = 12, builder = None, events = second_batch_trace\<rparr>) \<and>
   Scan_loop (example_scanner 1 1 (fails_from 1)) no_hash no_Add 2 0
       \<lparr>requests = 0, builder = None, events = take 2 second_batch_trace\<rparr>
     = Some (Some (Collaborator ''timeout''),
         \<lparr>requests = 12, builder = None, events = second_batch_trace\<rparr>) \<and>
   Scan (example_scanner 1 1 (fails_from 1)) no_hash no_Add 0 2 no_builder
     = Some (Some (Collaborator ''timeout''),
         \<lparr>requests = 12, builder = None, events = second_batch_trace\<rparr>) \<and>
   Close_jobs \<notin> set second_batch_trace \<and>
   WaitGroup_Wait \<notin> set second_batch_trace \<and>
   Print_Completed \<notin> set second_batch_trace \<and>
   (\<exists>a b pre. second_batch_trace
       = pre @ [GetEntries_call a b, Print (Problem_fetching a b (Error (Collaborator ''timeout'')))] \<and>
      GetEntries (logClient (example_scanner 1 1 (fails_from 1))) (12 - 1) a b
        = Inl (Collaborator ''timeout'')) \<and>
   \<not> closed (run example_schedule (start_system 0 second_batch_trace)) \<and>
   Exited \<notin> set (workers (run example_schedule (start_system 0 second_batch_trace)))"
proof -
  let ?s = "example_scanner 1 1 (fails_from 1)"
  let ?t = "Collaborator ''timeout''"
  let ?w0 = "\<lparr>requests = 0, builder = None :: unit option, events = take 2 second_batch_trace\<rparr>"
  let ?w1 = "\<lparr>requests = 1, builder = None :: unit option, events = take 4 second_batch_trace\<rparr>"
  let ?w2 = "\<lparr>requests = 12, builder = None :: unit option, events = second_batch_trace\<rparr>"
  have w0: "\<lparr>requests = 0, builder = None :: unit option, events = prologue ?s\<rparr> = ?w0"
    by (simp add: prologue_def example_scanner_def second_batch_trace_def upto.simps)
  have e: "wrap64 (min_int64 (wrap64 (1 + BatchSize (opts ?s))) 2 - 1) = 1"
    by (simp add: example_scanner_def wrap64_def min_int64_def)
  have first: "batches 1 ?s no_hash no_Add 2 0 ?w0 = Some (1, ?w1)"
    by code_simp
  have second: "fetch ?s no_hash no_Add \<lparr>r_start = 1, r_end = 1\<rparr> ?w1 = Some (Some ?t, ?w2)"
    by code_simp
  have h: "batches 1 ?s no_hash no_Add 2 0 \<lparr>requests = 0, builder = None, events = prologue ?s\<rparr>
      = Some (1, ?w1) \<and>
    (1::int) < 2 \<and>
    fetch ?s no_hash no_Add \<lparr>r_start = 1,
      r_end = wrap64 (min_int64 (wrap64 (1 + BatchSize (opts ?s))) 2 - 1)\<rparr> ?w1 = Some (Some ?t, ?w2)"
    unfolding w0 e using first second by simp
  note inst = Scan_error_path [where s = ?s and hashLeaf = no_hash and Add = no_Add
      and startIndex = 0 and endIndex = 2]
  have rest: "Scan_loop ?s no_hash no_Add 2 1 ?w1 = Some (Some ?t, ?w2)"
    by code_simp
  from inst [where k = 1 and origin = 0 and wo = ?w0 and start = 1 and ?w1.0 = ?w1,
      THEN conjunct1, rule_format, OF first]
  have loop: "Scan_loop ?s no_hash no_Add 2 0 ?w0 = Some (Some ?t, ?w2)"
    unfolding rest .
  from inst [where k = 1 and ?n0.0 = 0 and tb = None and start = 1 and ?w1.0 = ?w1
      and ?w2.0 = ?w2 and err = ?t, THEN conjunct2, THEN conjunct1, rule_format, OF h]
  have part1: "Scan ?s no_hash no_Add 0 2 \<lparr>requests = 0, builder = None, events = []\<rparr>
      = Some (Some ?t, ?w2) \<and>
    Close_jobs \<notin> set (events ?w2) \<and> WaitGroup_Wait \<notin> set (events ?w2) \<and>
    Print_Completed \<notin> set (events ?w2) \<and>
    (\<exists>a b pre. events ?w2 = pre @ [GetEntries_call a b, Print (Problem_fetching a b (Error ?t))] \<and>
       0 < requests ?w2 \<and> GetEntries (logClient ?s) (requests ?w2 - 1) a b = Inl ?t) \<and>
    (\<forall>gs c. \<not> closed (run gs (start_system c (events ?w2))) \<and>
       Exited \<notin> set (workers (run gs (start_system c (events ?w2)))))" .
  then have scan': "Scan ?s no_hash no_Add 0 2 \<lparr>requests = 0, builder = None, events = []\<rparr>
      = Some (Some ?t, ?w2)" ..
  then have scan: "Scan ?s no_hash no_Add 0 2 no_builder = Some (Some ?t, ?w2)"
    by (simp add: no_builder_def)
  from inst [THEN conjunct2, THEN conjunct2, rule_format, OF scan'] part1 first second loop scan
  show ?thesis
    by simp
qed

section \<open>Backoff\<close>

text \<open>
  C4. \<open>fetch\<close> is its loop started with ten retries left and a wait of one second.
  While requests fail one after the other, up to ten times, each failure sleeps for the
  current wait and then doubles it: after \<open>k\<close> such passes the loop is at its head
  with \<open>10 - k\<close> retries left and a wait of \<open>2 ^ k\<close> seconds, having slept 1, 2, 4, ...,
  \<open>2 ^ (k - 1)\<close> seconds and nothing else. A pass whose request succeeds does not
  sleep, and either returns \<open>nil\<close> or goes on with ten retries left and a wait of one
  second, whatever the two were before; the failures that follow it sleep 1, 2, 4, ...
  seconds again. All of this holds of every run of the loop, whether or not \<open>fetch\<close>
  returns in the end.
\<close>

theorem fetch_backoff:
  "FETCH_RETRIES = 10 \<and> FETCH_RETRY_WAIT = 1 \<and>
   fetch s hashLeaf Add r w =
     (case fetch_passes n s hashLeaf Add r 10 1 w of
        Return err w' \<Rightarrow> Some (err, w')
      | Again r' retries' retryWait' w' \<Rightarrow> fetch_loop s hashLeaf Add r' retries' retryWait' w') \<and>
   ((\<forall>j<length errs. GetEntries (logClient s) (requests w + j) (r_start r) (r_end r) = Inl (errs ! j)) \<and>
    length errs \<le> 10 \<longrightarrow>
      fetch_passes (length errs) s hashLeaf Add r 10 1 w =
        Again r (10 - int (length errs)) (2 ^ length errs)
          (w\<lparr>requests := requests w + length errs,
             events := events w @ failed_attempts s r 1 errs\<rparr>) \<and>
      sleeps (events (world_of (fetch_passes (length errs) s hashLeaf Add r 10 1 w))) =
        sleeps (events w) @ map (\<lambda>j. 2 ^ j) [0..<length errs]) \<and>
   (GetEntries (logClient s) (requests w) (r_start r) (r_end r) = Inr es \<longrightarrow>
      sleeps (events (world_of (fetch_body s hashLeaf Add r retries retryWait w))) = sleeps (events w) \<and>
      ((\<exists>w'. fetch_body s hashLeaf Add r retries retryWait w = Return None w') \<or>
       (\<exists>r' w'. fetch_body s hashLeaf Add r retries retryWait w = Again r' 10 1 w'))) \<and>
   (GetEntries (logClient s) (requests w) (r_start r) (r_end r) = Inr es \<and>
    fetch_body s hashLeaf Add r retries retryWait w = Again r' retries' retryWait' w' \<and>
    (\<forall>j<length errs. GetEntries (logClient s) (requests w' + j) (r_start r') (r_end r') = Inl (errs ! j)) \<and>
    length errs \<le> 10 \<longrightarrow>
      fetch_passes (Suc (length errs)) s hashLeaf Add r retries retryWait w =
        Again r' (10 - int (length errs)) (2 ^ length errs)
          (w'\<lparr>requests := requests w' + length errs,
              events := events w' @ failed_attempts s r' 1 errs\<rparr>) \<and>
      sleeps (events (world_of (fetch_passes (Suc (length errs)) s hashLeaf Add r retries retryWait w))) =
        sleeps (events w) @ map (\<lambda>j. 2 ^ j) [0..<length errs])"
proof (intro conjI impI)
  show "FETCH_RETRIES = 10" "FETCH_RETRY_WAIT = 1"
    by (simp_all add: FETCH_RETRIES_def FETCH_RETRY_WAIT_def)
next
  show "fetch s hashLeaf Add r w =
     (case fetch_passes n s hashLeaf Add r 10 1 w of
        Return err w' \<Rightarrow> Some (err, w')
      | Again r' retries' retryWait' w' \<Rightarrow> fetch_loop s hashLeaf Add r' retries' retryWait' w')"
    using fetch_loop_unroll [of s hashLeaf Add r 10 1 w n]
    by (simp add: fetch_def FETCH_RETRIES_def FETCH_RETRY_WAIT_def)
next
  assume a: "(\<forall>j<length errs. GetEntries (logClient s) (requests w + j) (r_start r) (r_end r)
      = Inl (errs ! j)) \<and> length errs \<le> 10"
  then show passes: "fetch_passes (length errs) s hashLeaf Add r 10 1 w =
     Again r (10 - int (length errs)) (2 ^ length errs)
       (w\<lparr>requests := requests w + length errs,
          events := events w @ failed_attempts s r 1 errs\<rparr>)"
    using fetch_passes_failures [of errs s w r 10 hashLeaf Add 1] by simp
  show "sleeps (events (world_of (fetch_passes (length errs) s hashLeaf Add r 10 1 w))) =
      sleeps (events w) @ map (\<lambda>j. 2 ^ j) [0..<length errs]"
    unfolding passes by (simp add: sleeps_append sleeps_failed_attempts)
next
  assume ok: "GetEntries (logClient s) (requests w) (r_start r) (r_end r) = Inr es"
  from fetch_body_success(1) [OF ok, of hashLeaf Add retries retryWait]
  show "sleeps (events (world_of (fetch_body s hashLeaf Add r retries retryWait w))) = sleeps (events w)"
    by (auto simp: sleeps_append sleeps_request_events sleeps_map_Send)
  from fetch_body_success(2) [OF ok, of hashLeaf Add retries retryWait]
  show "(\<exists>w'. fetch_body s hashLeaf Add r retries retryWait w = Return None w') \<or>
      (\<exists>r' w'. fetch_body s hashLeaf Add r retries retryWait w = Again r' 10 1 w')"
    by (simp add: FETCH_RETRIES_def FETCH_RETRY_WAIT_def)
next
  assume a: "GetEntries (logClient s) (requests w) (r_start r) (r_end r) = Inr es \<and>
    fetch_body s hashLeaf Add r retries retryWait w = Again r' retries' retryWait' w' \<and>
    (\<forall>j<length errs. GetEntries (logClient s) (requests w' + j) (r_start r') (r_end r') = Inl (errs ! j)) \<and>
    length errs \<le> 10"
  then have ok: "GetEntries (logClient s) (requests w) (r_start r) (r_end r) = Inr es"
    and body: "fetch_body s hashLeaf Add r retries retryWait w = Again r' retries' retryWait' w'"
    by auto
  from fetch_body_success(2) [OF ok, of hashLeaf Add retries retryWait] body
  have reset: "retries' = 10" "retryWait' = 1"
    by (simp_all add: FETCH_RETRIES_def FETCH_RETRY_WAIT_def)
  from fetch_body_success(1) [OF ok, of hashLeaf Add retries retryWait] body
  have quiet: "sleeps (events w') = sleeps (events w)"
    by (auto simp: sleeps_append sleeps_request_events sleeps_map_Send)
  have "fetch_passes (length errs) s hashLeaf Add r' 10 1 w' =
     Again r' (10 - int (length errs)) (2 ^ length errs)
       (w'\<lparr>requests := requests w' + length errs,
           events := events w' @ failed_attempts s r' 1 errs\<rparr>)"
    using a fetch_passes_failures [of errs s w' r' 10 hashLeaf Add 1] by simp
  then show passes: "fetch_passes (Suc (length errs)) s hashLeaf Add r retries retryWait w =
     Again r' (10 - int (length errs)) (2 ^ length errs)
       (w'\<lparr>requests := requests w' + length errs,
           events := events w' @ failed_attempts s r' 1 errs\<rparr>)"
    using body reset by simp
  show "sleeps (events (world_of (fetch_passes (Suc (length errs)) s hashLeaf Add r retries retryWait w))) =
      sleeps (events w) @ map (\<lambda>j. 2 ^ j) [0..<length errs]"
    unfolding passes by (simp add: sleeps_append sleeps_failed_attempts quiet)
qed

theorem fetch_backoff_witness:
  "fetch_passes 3 (example_scanner 1 1 flaky) no_hash no_Add two_entries 10 1 no_builder =
     Again two_entries 7 8 after_three_failures \<and>
   sleeps (events after_three_failures) = [1, 2, 4] \<and>
   fetch_body (example_scanner 1 1 flaky) no_hash no_Add two_entries 7 8 after_three_failures =
     Again \<lparr>r_start = 1, r_end = 1\<rparr> 10 1
       \<lparr>requests = 4, builder = None, events = take 8 flaky_trace\<rparr> \<and>
   sleeps (take 8 flaky_trace) = [1, 2, 4] \<and>
   fetch_passes 3 (example_scanner 1 1 flaky) no_hash no_Add two_entries 7 8 after_three_failures =
     Again \<lparr>r_start = 1, r_end = 1\<rparr> 8 4
       \<lparr>requests = 6, builder = None, events = take 12 flaky_trace\<rparr> \<and>
   sleeps (take 12 flaky_trace) = [1, 2, 4, 1, 2] \<and>
   fetch (example_scanner 1 1 flaky) no_hash no_Add two_entries no_builder =
     Some (None, \<lparr>requests = 7, builder = None, events = flaky_trace\<rparr>)"
proof -
  let ?s = "example_scanner 1 1 flaky"
  let ?t = "Collaborator ''timeout''"
  let ?r1 = "\<lparr>r_start = 1, r_end = 1\<rparr>"
  let ?w4 = "\<lparr>requests = 4, builder = None :: unit option, events = take 8 flaky_trace\<rparr>"
  let ?w6 = "\<lparr>requests = 6, builder = None :: unit option, events = take 12 flaky_trace\<rparr>"
  note inst = fetch_backoff [where s = ?s and hashLeaf = no_hash and Add = no_Add]
  have len3: "length [?t, ?t, ?t] = 3" and len2: "length [?t, ?t] = 2"
    by simp_all
  have h3: "(\<forall>j<length [?t, ?t, ?t]. GetEntries (logClient ?s) (requests no_builder + j)
        (r_start two_entries) (r_end two_entries) = Inl ([?t, ?t, ?t] ! j)) \<and>
      length [?t, ?t, ?t] \<le> 10"
    by (simp add: example_scanner_def flaky_def no_builder_def less_Suc_eq numeral_3_eq_3)
  have w3: "no_builder\<lparr>requests := requests no_builder + 3,
      events := events no_builder @ failed_attempts ?s two_entries 1 [?t, ?t, ?t]\<rparr>
      = after_three_failures"
    by (simp add: no_builder_def after_three_failures_def example_scanner_def request_events_def
        two_entries_def)
  have p3: "(2::int) ^ 3 = 8" "(10::int) - int 3 = 7" "map (\<lambda>j. (2::int) ^ j) [0..<3] = [1, 2, 4]"
    by (simp_all add: upt_rec)
  from inst [where r = two_entries and w = no_builder and errs = "[?t, ?t, ?t]",
      THEN conjunct2, THEN conjunct2, THEN conjunct2, THEN conjunct1, rule_format, OF h3]
  have first: "fetch_passes 3 ?s no_hash no_Add two_entries 10 1 no_builder =
      Again two_entries 7 8 after_three_failures"
    and "sleeps (events (world_of (fetch_passes 3 ?s no_hash no_Add two_entries 10 1 no_builder))) =
      sleeps (events no_builder) @ [1, 2, 4]"
    unfolding len3 w3 p3 by blast+
  then have sl3: "sleeps (events after_three_failures) = [1, 2, 4]"
    by (simp add: no_builder_def)
  have ok: "GetEntries (logClient ?s) (requests after_three_failures) (r_start two_entries)
      (r_end two_entries) = Inr [example_entry]"
    by (simp add: example_scanner_def flaky_def after_three_failures_def)
  have body: "fetch_body ?s no_hash no_Add two_entries 7 8 after_three_failures = Again ?r1 10 1 ?w4"
    by code_simp
  from inst [where r = two_entries and w = after_three_failures and es = "[example_entry]"
      and retries = 7 and retryWait = 8,
      THEN conjunct2, THEN conjunct2, THEN conjunct2, THEN conjunct2, THEN conjunct1, rule_format, OF ok]
  have sl4: "sleeps (take 8 flaky_trace) = [1, 2, 4]"
    unfolding body using sl3 by simp
  have h5: "GetEntries (logClient ?s) (requests after_three_failures) (r_start two_entries)
      (r_end two_entries) = Inr [example_entry] \<and>
    fetch_body ?s no_hash no_Add two_entries 7 8 after_three_failures = Again ?r1 10 1 ?w4 \<and>
    (\<forall>j<length [?t, ?t]. GetEntries (logClient ?s) (requests ?w4 + j) (r_start ?r1) (r_end ?r1)
       = Inl ([?t, ?t] ! j)) \<and>
    length [?t, ?t] \<le> 10"
    using ok body by (simp add: example_scanner_def flaky_def less_Suc_eq numeral_2_eq_2)
  have w6: "?w4\<lparr>requests := requests ?w4 + 2,
      events := events ?w4 @ failed_attempts ?s ?r1 1 [?t, ?t]\<rparr> = ?w6"
    by (simp add: flaky_trace_def example_scanner_def request_events_def)
  have p2: "(2::int) ^ 2 = 4" "(10::int) - int 2 = 8" "map (\<lambda>j. (2::int) ^ j) [0..<2] = [1, 2]"
    "Suc 2 = 3"
    by (simp_all add: upt_rec)
  from inst [where r = two_entries and w = after_three_failures and es = "[example_entry]"
      and retries = 7 and retryWait = 8 and r' = ?r1 and retries' = 10 and retryWait' = 1
      and w' = ?w4 and errs = "[?t, ?t]",
      THEN conjunct2, THEN conjunct2, THEN conjunct2, THEN conjunct2, THEN conjunct2,
      rule_format, OF h5]
  have second: "fetch_passes 3 ?s no_hash no_Add two_entries 7 8 after_three_failures =
      Again ?r1 8 4 ?w6"
    and "sleeps (events (world_of (fetch_passes 3 ?s no_hash no_Add two_entries 7 8 after_three_failures))) =
      sleeps (events after_three_failures) @ [1, 2]"
    unfolding len2 w6 p2 by blast+
  then have sl6: "sleeps (take 12 flaky_trace) = [1, 2, 4, 1, 2]"
    using sl3 by simp
  have p7: "fetch_passes 7 ?s no_hash no_Add two_entries 10 1 no_builder =
      Return None \<lparr>requests = 7, builder = None, events = flaky_trace\<rparr>"
    by code_simp
  from inst [where r = two_entries and w = no_builder and n = 7,
      THEN conjunct2, THEN conjunct2, THEN conjunct1]
  have all: "fetch ?s no_hash no_Add two_entries no_builder =
     Some (None, \<lparr>requests = 7, builder = None, events = flaky_trace\<rparr>)"
    unfolding p7 by simp
  from first sl3 body sl4 second sl6 all show ?thesis
    by (intro conjI)
qed

section \<open>Short responses\<close>



section \<open>Empty responses\<close>



section \<open>CheckConsistency\<close>

text \<open>
  C5. When the first head is larger than the second, \<open>CheckConsistency\<close> returns
  \<open>(false, nil, nil, nil)\<close>, a verdict and not an error, and calls no collaborator:
  neither the log client nor the Merkle verifier.
\<close>

theorem CheckConsistency_shrunk:
  "TreeSize first > TreeSize second \<Longrightarrow>
   CheckConsistency s VerifyConsistencyProof first second = ((False, None, None, None), [])"
  by (simp add: CheckConsistency_def)

theorem CheckConsistency_shrunk_witness:
  "TreeSize (example_sth 5) > TreeSize (example_sth 3) \<and>
   CheckConsistency (example_scanner 1 1 one_at_a_time) accept_proof (example_sth 5) (example_sth 3)
     = ((False, None, None, None), [])"
proof -
  have h: "TreeSize (example_sth 5) > TreeSize (example_sth 3)"
    by (simp add: example_sth_def)
  from h CheckConsistency_shrunk [OF h] show ?thesis by simp
qed

text \<open>
  C6. When the two heads have the same size, \<open>CheckConsistency\<close> does not ask the log
  for a proof: it hands the empty proof and the two heads to the Merkle verifier, and
  returns the verifier's verdict and tree builder, the empty proof and no error.
\<close>

theorem CheckConsistency_same_size:
  "TreeSize first = TreeSize second \<Longrightarrow>
   CheckConsistency s VerifyConsistencyProof first second =
     ((fst (VerifyConsistencyProof (Some []) first second),
       snd (VerifyConsistencyProof (Some []) first second), Some [], None),
      [VerifyConsistencyProof_call (Some []) first second])"
  by (simp add: CheckConsistency_def Let_def split: prod.splits)

theorem CheckConsistency_same_size_witness:
  "TreeSize (example_sth 5) = TreeSize (example_sth 5) \<and>
   CheckConsistency (example_scanner 1 1 one_at_a_time) accept_proof (example_sth 5) (example_sth 5)
     = ((True, Some (), Some [], None),
        [VerifyConsistencyProof_call (Some []) (example_sth 5) (example_sth 5)])"
proof -
  have h: "TreeSize (example_sth 5) = TreeSize (example_sth 5)"
    by simp
  from CheckConsistency_same_size [OF h, of "example_scanner 1 1 one_at_a_time" accept_proof]
  show ?thesis by (simp add: accept_proof_def)
qed

section \<open>GetSTH\<close>

text \<open>
  C7, as the code has it. \<open>GetSTH\<close> asks the log once. A failed request returns the
  log client's error. With no public key the head is returned unverified. With a public
  key a verifier is built from it first: when that fails, its error is returned as it is
  and the signature is not checked; otherwise the signature is checked, and a rejected
  signature returns no head and a new error \<open>STH signature is invalid: ...\<close>, which is
  none of the collaborators' errors.
\<close>

theorem GetSTH_cases:
  "(GetSTH_rpc (logClient s) = Inl err \<longrightarrow>
      GetSTH s NewSignatureVerifier VerifySTHSignature = ((None, Some err), [GetSTH_call])) \<and>
   (GetSTH_rpc (logClient s) = Inr sth \<and> publicKey s = None \<longrightarrow>
      GetSTH s NewSignatureVerifier VerifySTHSignature = ((Some sth, None), [GetSTH_call])) \<and>
   (GetSTH_rpc (logClient s) = Inr sth \<and> publicKey s = Some key \<and>
    NewSignatureVerifier key = Inl err \<longrightarrow>
      GetSTH s NewSignatureVerifier VerifySTHSignature =
        ((None, Some err), [GetSTH_call, NewSignatureVerifier_call key])) \<and>
   (GetSTH_rpc (logClient s) = Inr sth \<and> publicKey s = Some key \<and>
    NewSignatureVerifier key = Inr verifier \<and> VerifySTHSignature verifier sth = Some err \<longrightarrow>
      GetSTH s NewSignatureVerifier VerifySTHSignature =
        ((None, Some (errors_New (''STH signature is invalid: '' @ Error err))),
         [GetSTH_call, NewSignatureVerifier_call key, VerifySTHSignature_call sth]) \<and>
      errors_New (''STH signature is invalid: '' @ Error err) \<notin> range Collaborator) \<and>
   (GetSTH_rpc (logClient s) = Inr sth \<and> publicKey s = Some key \<and>
    NewSignatureVerifier key = Inr verifier \<and> VerifySTHSignature verifier sth = None \<longrightarrow>
      GetSTH s NewSignatureVerifier VerifySTHSignature =
        ((Some sth, None),
         [GetSTH_call, NewSignatureVerifier_call key, VerifySTHSignature_call sth]))"
  by (auto simp: GetSTH_def)

theorem GetSTH_cases_witness:
  "GetSTH (sth_scanner (Some [1]) (Inl (Collaborator ''connection refused''))) any_key accept_signature
     = ((None, Some (Collaborator ''connection refused'')), [GetSTH_call]) \<and>
   GetSTH (sth_scanner None (Inr (example_sth 7))) any_key reject_signature
     = ((Some (example_sth 7), None), [GetSTH_call]) \<and>
   GetSTH (sth_scanner (Some [1]) (Inr (example_sth 7))) unsupported_key accept_signature
     = ((None, Some (Collaborator ''unsupported public key type'')),
        [GetSTH_call, NewSignatureVerifier_call [1]]) \<and>
   GetSTH (sth_scanner (Some [1]) (Inr (example_sth 7))) any_key reject_signature
     = ((None, Some (errors_New ''STH signature is invalid: bad signature'')),
        [GetSTH_call, NewSignatureVerifier_call [1], VerifySTHSignature_call (example_sth 7)]) \<and>
   GetSTH (sth_scanner (Some [1]) (Inr (example_sth 7))) any_key accept_signature
     = ((Some (example_sth 7), None),
        [GetSTH_call, NewSignatureVerifier_call [1], VerifySTHSignature_call (example_sth 7)])"
  using
    GetSTH_cases [of "sth_scanner (Some [1]) (Inl (Collaborator ''connection refused''))"
      "Collaborator ''connection refused''" any_key accept_signature]
    GetSTH_cases [of "sth_scanner None (Inr (example_sth 7))" _ any_key reject_signature
      "example_sth 7"]
    GetSTH_cases [of "sth_scanner (Some [1]) (Inr (example_sth 7))"
      "Collaborator ''unsupported public key type''" unsupported_key accept_signature
      "example_sth 7" "[1]"]
    GetSTH_cases [of "sth_scanner (Some [1]) (Inr (example_sth 7))"
      "Collaborator ''bad signature''" any_key reject_signature "example_sth 7" "[1]" "()"]
    GetSTH_cases [of "sth_scanner (Some [1]) (Inr (example_sth 7))" _ any_key accept_signature
      "example_sth 7" "[1]" "()"]
  by (simp add: sth_scanner_def NewScanner_def any_key_def unsupported_key_def
      reject_signature_def accept_signature_def)

text \<open>
  C7 as stated fails where a public key is configured and no verifier can be built
  from it: the signature of the head is not checked, and the error returned is the
  verifier constructor's, not the invalid-signature one.
\<close>

theorem GetSTH_unverified_counterexample:
  "publicKey (sth_scanner (Some [1]) (Inr (example_sth 7))) = Some [1] \<and>
   GetSTH (sth_scanner (Some [1]) (Inr (example_sth 7))) unsupported_key accept_signature
     = ((None, Some (Collaborator ''unsupported public key type'')),
        [GetSTH_call, NewSignatureVerifier_call [1]])"
  by (simp add: GetSTH_def sth_scanner_def NewScanner_def unsupported_key_def)

end
